theory Spec2Isabelle
  imports
    Main
    "HOL-Library.Char_ord"
    "HOL-Library.List_Lexorder"
    "HOL-Library.Product_Lexorder"
    "HOL-Library.Multiset"
    "HOL-Library.Sublist"
begin

section \<open>The migrator of \<open>src/index.ts\<close>, embedded in HOL\<close>

text \<open>
  The orchestrator (class \<open>Migrator\<close>) is translated function by function. Four things
  of its environment are not code of the repository and are represented as follows.

  \<^item> The SQLite connection is a value of type \<open>'u Database\<close>. Its contents are the log table
    (absent, or a list of rows \<open>(name, timestamp)\<close>) and everything else the database holds
    (\<open>user_data\<close>, of an arbitrary type). Its condition is the open transaction (the stack
    of rollback images, empty in autocommit mode) and the set of statements the driver
    refuses (a read-only or locked database, a table name that is not valid SQL, an I/O
    error). Every function that executes a statement takes the connection and returns it,
    also when it throws. Which table is the log table (\<open>migrationTableName\<close>, default
    \<open>migrations\<close>) is fixed by the field \<open>log_table\<close>.
  \<^item> A migration operation (\<open>up\<close>, \<open>down\<close>) receives the live connection: it is an
    arbitrary function on it that returns normally or throws, and in both cases leaves a
    connection behind. It may change the contents, commit or roll back.
  \<^item> A thrown value is any JavaScript value, \<open>undefined\<close> included: it is an
    \<open>error option\<close>, \<open>None\<close> being \<open>undefined\<close>. The field \<open>error\<close> of a result set holds
    the caught value as it is, so it is \<open>None\<close> when the field is absent and when the
    caught value is \<open>undefined\<close>, which a caller cannot tell apart.
  \<^item> \<open>new Date().toISOString()\<close> is read once in each iteration of the loop of
    \<open>migrateUp\<close>; the parameter \<open>clock\<close> gives the string read in iteration \<open>i\<close>.

  A name or timestamp is the string of its UTF-8 bytes. SQLite's \<open>order by\<close> compares
  these bytes, which is the order of \<open>char list\<close>; JavaScript's default \<open>sort()\<close> compares
  UTF-16 code units (\<open>utf16_units\<close> below). The two orders differ for characters beyond
  the Basic Multilingual Plane.
\<close>

subsection \<open>Data model\<close>

type_synonym migration_name = string
type_synonym timestamp = string
type_synonym log_row = "migration_name \<times> timestamp"

datatype statement =
    CreateTable | SelectNames | Insert | Delete
  | Begin | Commit | Rollback | Savepoint | Release | RollbackTo

datatype sqlite_error =
    Refused statement
  | NoSuchTable
  | PrimaryKeyConstraint
  | NoTransactionActive
  | TransactionWithinTransaction
  | NoSuchSavepoint

text \<open>
  The values the code throws and catches: the two \<open>corrupted migrations\<close> errors of
  \<open>ensureNoMissingMigrations\<close> and \<open>ensureMigrationsInOrder\<close> (with the names and the index
  their messages cite), the \<open>TypeError\<close> of reading a property of \<open>undefined\<close>, the
  errors of the SQLite driver, and whatever else an operation or the provider throws.
\<close>

datatype error =
    MissingMigration migration_name
  | OutOfOrder migration_name nat migration_name
  | TypeError
  | SqliteError sqlite_error
  | Thrown string

type_synonym thrown = "error option"

fun is_corrupted :: "error \<Rightarrow> bool" where
  "is_corrupted (MissingMigration _) = True"
| "is_corrupted (OutOfOrder _ _ _) = True"
| "is_corrupted _ = False"

record 'u Contents =
  log_table :: "log_row list option"
  user_data :: 'u

text \<open>
  An entry of the open transaction: what opened it (\<open>BEGIN\<close> or a named savepoint) and
  the contents to which rolling back to it returns.
\<close>

datatype mark = Begun | Named string

record 'u Database = "'u Contents" +
  open_transaction :: "(mark \<times> 'u Contents) list"
  refuses :: "statement set"

type_synonym 'u operation = "'u Database \<Rightarrow> (thrown + unit) \<times> 'u Database"

record 'u Migration =
  up :: "'u operation"
  down :: "'u operation option"

record 'u NamedMigration = "'u Migration" +
  name :: migration_name

record 'u MigrationState =
  migrations :: "'u NamedMigration list"
  executedMigrations :: "migration_name list"
  lastMigration :: "migration_name option"
  pendingMigrations :: "'u NamedMigration list"

datatype MigrationDirection = Up | Down

datatype status = Success | Error | NotExecuted

record MigrationResult =
  migrationName :: migration_name
  direction :: MigrationDirection
  status :: status

record MigrationResultSet =
  error :: thrown
  results :: "MigrationResult list option"

text \<open>
  What propagates as an exception: an instance of \<open>MigrationResultSetError\<close>, or any
  other value.
\<close>

datatype exn = Plain thrown | MigrationResultSetError MigrationResultSet

text \<open>A JavaScript \<open>number\<close> used as \<open>step\<close>: an integer or \<open>Infinity\<close>.\<close>

datatype step = Finite int | Infinity

text \<open>
  The constructor's \<open>props\<close>, without the database (which is threaded through the calls)
  and the table name. \<open>provider\<close> is what \<open>provider.getMigrations()\<close> does when called:
  it throws, or returns a \<open>Record<string, Migration>\<close>, given as an association list
  in which the first binding of a key is the key's value.
\<close>

record 'u MigratorProps =
  provider :: "thrown + (migration_name \<times> 'u Migration) list"
  allowUnorderedMigrations :: "bool option"

definition DEFAULT_ALLOW_UNORDERED_MIGRATIONS :: bool where
  "DEFAULT_ALLOW_UNORDERED_MIGRATIONS = False"

definition allowUnordered :: "'u MigratorProps \<Rightarrow> bool" where
  "allowUnordered props =
     (case allowUnorderedMigrations props of
        None \<Rightarrow> DEFAULT_ALLOW_UNORDERED_MIGRATIONS
      | Some b \<Rightarrow> b)"

subsection \<open>The order of JavaScript's \<open>sort()\<close>\<close>

text \<open>
  The code points of a string given by its UTF-8 bytes: a leading byte announces the
  number of continuation bytes and carries the first bits of the code point, each
  continuation byte six more (a byte that starts no sequence counts as itself). Then the
  UTF-16 code units of the string, which \<open>sort()\<close> without a comparator compares.
\<close>

definition continuation_bytes :: "int \<Rightarrow> nat" where
  "continuation_bytes b =
     (if b < 0xC0 then 0 else if b < 0xE0 then 1 else if b < 0xF0 then 2 else 3)"

definition leading_bits :: "int \<Rightarrow> int" where
  "leading_bits b =
     (if b < 0xC0 then b else if b < 0xE0 then b mod 0x20
      else if b < 0xF0 then b mod 0x10 else b mod 0x08)"

fun utf8_code_points :: "int list \<Rightarrow> int list" where
  "utf8_code_points [] = []"
| "utf8_code_points (b # bs) =
     foldl (\<lambda>cp c. cp * 0x40 + c mod 0x40) (leading_bits b)
       (take (continuation_bytes b) bs) #
     utf8_code_points (drop (continuation_bytes b) bs)"

definition utf16_of_code_point :: "int \<Rightarrow> int list" where
  "utf16_of_code_point cp =
     (if cp < 0x10000 then [cp]
      else [0xD800 + (cp - 0x10000) div 0x400, 0xDC00 + (cp - 0x10000) mod 0x400])"

definition utf16_units :: "string \<Rightarrow> int list" where
  "utf16_units s = concat (map utf16_of_code_point (utf8_code_points (map of_char s)))"

definition js_sort :: "string list \<Rightarrow> string list" where
  "js_sort xs = sort_key utf16_units xs"

subsection \<open>The statements the orchestrator and the transaction wrapper execute\<close>

text \<open>The rows of the log table, none when the table does not exist.\<close>

definition log_rows :: "'u Database \<Rightarrow> log_row list" where
  "log_rows db = (case log_table db of None \<Rightarrow> [] | Some rows \<Rightarrow> rows)"

definition contents :: "'u Database \<Rightarrow> 'u Contents" where
  "contents db = \<lparr>log_table = log_table db, user_data = user_data db\<rparr>"

definition restore :: "'u Contents \<Rightarrow> 'u Database \<Rightarrow> 'u Database" where
  "restore c db = db\<lparr>log_table := log_table c, user_data := user_data c\<rparr>"

definition refused :: "statement \<Rightarrow> 'u Database \<Rightarrow> (thrown + unit) \<times> 'u Database" where
  "refused s db = (Inl (Some (SqliteError (Refused s))), db)"

text \<open>\<open>create table if not exists ... (name ... primary key, timestamp ...)\<close>\<close>

definition exec_create_table :: "'u operation" where
  "exec_create_table db =
     (if CreateTable \<in> refuses db then refused CreateTable db
      else case log_table db of
             None \<Rightarrow> (Inr (), db\<lparr>log_table := Some []\<rparr>)
           | Some rows \<Rightarrow> (Inr (), db))"

text \<open>\<open>select name from ... order by timestamp, name\<close>\<close>

definition order_key :: "log_row \<Rightarrow> timestamp \<times> migration_name" where
  "order_key row = (snd row, fst row)"

definition query_names :: "'u Database \<Rightarrow> thrown + migration_name list" where
  "query_names db =
     (if SelectNames \<in> refuses db then Inl (Some (SqliteError (Refused SelectNames)))
      else case log_table db of
             None \<Rightarrow> Inl (Some (SqliteError NoSuchTable))
           | Some rows \<Rightarrow> Inr (map fst (sort_key order_key rows)))"

text \<open>\<open>insert into ... (name, timestamp) values (?, ?)\<close>; \<open>name\<close> is the primary key.\<close>

definition exec_insert :: "log_row \<Rightarrow> 'u operation" where
  "exec_insert row db =
     (if Insert \<in> refuses db then refused Insert db
      else case log_table db of
             None \<Rightarrow> (Inl (Some (SqliteError NoSuchTable)), db)
           | Some rows \<Rightarrow>
               if fst row \<in> set (map fst rows)
               then (Inl (Some (SqliteError PrimaryKeyConstraint)), db)
               else (Inr (), db\<lparr>log_table := Some (rows @ [row])\<rparr>))"

text \<open>\<open>delete from ... where name = ?\<close>\<close>

definition exec_delete :: "migration_name \<Rightarrow> 'u operation" where
  "exec_delete n db =
     (if Delete \<in> refuses db then refused Delete db
      else case log_table db of
             None \<Rightarrow> (Inl (Some (SqliteError NoSuchTable)), db)
           | Some rows \<Rightarrow>
               (Inr (), db\<lparr>log_table := Some (filter (\<lambda>row. fst row \<noteq> n) rows)\<rparr>))"

text \<open>
  Transaction control. \<open>BEGIN\<close> opens a transaction and remembers the contents;
  \<open>COMMIT\<close> closes it and keeps the contents; \<open>ROLLBACK\<close> closes it and returns to the
  contents at its beginning. A savepoint is an inner mark; \<open>ROLLBACK TO\<close> returns to
  the most recent savepoint of the name and keeps it, \<open>RELEASE\<close> removes it and the
  marks after it.
\<close>

definition inTransaction :: "'u Database \<Rightarrow> bool" where
  "inTransaction db = (open_transaction db \<noteq> [])"

definition exec_begin :: "'u operation" where
  "exec_begin db =
     (if Begin \<in> refuses db then refused Begin db
      else if inTransaction db then (Inl (Some (SqliteError TransactionWithinTransaction)), db)
      else (Inr (), db\<lparr>open_transaction := [(Begun, contents db)]\<rparr>))"

definition exec_commit :: "'u operation" where
  "exec_commit db =
     (if Commit \<in> refuses db then refused Commit db
      else if \<not> inTransaction db then (Inl (Some (SqliteError NoTransactionActive)), db)
      else (Inr (), db\<lparr>open_transaction := []\<rparr>))"

definition exec_rollback :: "'u operation" where
  "exec_rollback db =
     (if Rollback \<in> refuses db then refused Rollback db
      else if \<not> inTransaction db then (Inl (Some (SqliteError NoTransactionActive)), db)
      else (Inr (), (restore (snd (last (open_transaction db))) db)\<lparr>open_transaction := []\<rparr>))"

definition exec_savepoint :: "string \<Rightarrow> 'u operation" where
  "exec_savepoint n db =
     (if Savepoint \<in> refuses db then refused Savepoint db
      else (Inr (), db\<lparr>open_transaction := (Named n, contents db) # open_transaction db\<rparr>))"

definition exec_release :: "string \<Rightarrow> 'u operation" where
  "exec_release n db =
     (if Release \<in> refuses db then refused Release db
      else case dropWhile (\<lambda>entry. fst entry \<noteq> Named n) (open_transaction db) of
             [] \<Rightarrow> (Inl (Some (SqliteError NoSuchSavepoint)), db)
           | entry # outer \<Rightarrow> (Inr (), db\<lparr>open_transaction := outer\<rparr>))"

definition exec_rollback_to :: "string \<Rightarrow> 'u operation" where
  "exec_rollback_to n db =
     (if RollbackTo \<in> refuses db then refused RollbackTo db
      else case dropWhile (\<lambda>entry. fst entry \<noteq> Named n) (open_transaction db) of
             [] \<Rightarrow> (Inl (Some (SqliteError NoSuchSavepoint)), db)
           | entry # outer \<Rightarrow>
               (Inr (), (restore (snd entry) db)\<lparr>open_transaction := entry # outer\<rparr>))"

text \<open>
  \<open>db.transaction(f).immediate()\<close>, the wrapper of the driver. Inside a transaction it
  works with a savepoint of its own (\<open>before\<close>, \<open>after\<close> and \<open>undo\<close> are then
  \<open>SAVEPOINT\<close>, \<open>RELEASE\<close> and \<open>ROLLBACK TO\<close>), otherwise with \<open>BEGIN IMMEDIATE\<close>,
  \<open>COMMIT\<close> and \<open>ROLLBACK\<close>. It runs \<open>before\<close>, \<open>f\<close> and \<open>after\<close>. When any of the
  three throws, it runs \<open>undo\<close> (and, with a savepoint, \<open>after\<close>) only if the connection
  is still in a transaction, and throws the same value again; an \<open>undo\<close> that throws
  replaces it.
\<close>

definition wrapper_savepoint :: string where
  "wrapper_savepoint = CHR 0x09 # ''_bs3.'' @ [CHR 0x09]"

definition before :: "bool \<Rightarrow> 'u operation" where
  "before nested = (if nested then exec_savepoint wrapper_savepoint else exec_begin)"

definition after :: "bool \<Rightarrow> 'u operation" where
  "after nested = (if nested then exec_release wrapper_savepoint else exec_commit)"

definition undo :: "bool \<Rightarrow> 'u operation" where
  "undo nested = (if nested then exec_rollback_to wrapper_savepoint else exec_rollback)"

definition transaction_catch ::
  "bool \<Rightarrow> exn \<Rightarrow> 'u Database \<Rightarrow> (exn + 'a) \<times> 'u Database" where
  "transaction_catch nested ex db =
     (if inTransaction db then
        (case undo nested db of
           (Inl e, db1) \<Rightarrow> (Inl (Plain e), db1)
         | (Inr _, db1) \<Rightarrow>
             if nested then
               (case after nested db1 of
                  (Inl e, db2) \<Rightarrow> (Inl (Plain e), db2)
                | (Inr _, db2) \<Rightarrow> (Inl ex, db2))
             else (Inl ex, db1))
      else (Inl ex, db))"

definition transaction ::
  "('u Database \<Rightarrow> (exn + 'a) \<times> 'u Database) \<Rightarrow> 'u Database \<Rightarrow> (exn + 'a) \<times> 'u Database" where
  "transaction f db =
     (let nested = inTransaction db in
      case before nested db of
        (Inl e, db1) \<Rightarrow> transaction_catch nested (Plain e) db1
      | (Inr _, db1) \<Rightarrow>
         (case f db1 of
            (Inl ex, db2) \<Rightarrow> transaction_catch nested ex db2
          | (Inr r, db2) \<Rightarrow>
             (case after nested db2 of
                (Inl e, db3) \<Rightarrow> transaction_catch nested (Plain e) db3
              | (Inr _, db3) \<Rightarrow> (Inr r, db3))))"

subsection \<open>Array helpers\<close>

text \<open>\<open>xs[i]\<close>, which is \<open>undefined\<close> out of range.\<close>

definition at :: "'a list \<Rightarrow> nat \<Rightarrow> 'a option" where
  "at xs i = (if i < length xs then Some (xs ! i) else None)"

text \<open>\<open>xs.slice(0, step)\<close>: a negative end counts from the end of the array.\<close>

fun slice0 :: "step \<Rightarrow> 'a list \<Rightarrow> 'a list" where
  "slice0 Infinity xs = xs"
| "slice0 (Finite n) xs =
     (if n < 0 then take (nat (int (length xs) + n)) xs else take (nat n) xs)"

fun step_le_zero :: "step \<Rightarrow> bool" where
  "step_le_zero Infinity = False"
| "step_le_zero (Finite n) = (n \<le> 0)"

subsection \<open>State resolution\<close>

definition with_name :: "'u Migration \<Rightarrow> migration_name \<Rightarrow> 'u NamedMigration" where
  "with_name m n = \<lparr>up = up m, down = down m, name = n\<rparr>"

definition resolveMigrations :: "'u MigratorProps \<Rightarrow> thrown + 'u NamedMigration list" where
  "resolveMigrations props =
     (case provider props of
        Inl e \<Rightarrow> Inl e
      | Inr allMigrations \<Rightarrow>
          Inr (map (\<lambda>n. with_name (the (map_of allMigrations n)) n)
                 (js_sort (remdups (map fst allMigrations)))))"

definition getExecutedMigrations :: "'u Database \<Rightarrow> thrown + migration_name list" where
  "getExecutedMigrations db = query_names db"

definition getPendingMigrations ::
  "'u NamedMigration list \<Rightarrow> migration_name list \<Rightarrow> 'u NamedMigration list" where
  "getPendingMigrations migs executed =
     filter (\<lambda>migration. \<not> (name migration \<in> set executed)) migs"

fun ensureNoMissingMigrations ::
  "'u NamedMigration list \<Rightarrow> migration_name list \<Rightarrow> thrown + unit" where
  "ensureNoMissingMigrations migs [] = Inr ()"
| "ensureNoMissingMigrations migs (executed # rest) =
     (if \<not> list_ex (\<lambda>it. name it = executed) migs
      then Inl (Some (MissingMigration executed))
      else ensureNoMissingMigrations migs rest)"

function ensureMigrationsInOrder_loop ::
  "'u NamedMigration list \<Rightarrow> migration_name list \<Rightarrow> nat \<Rightarrow> thrown + unit" where
  "ensureMigrationsInOrder_loop migs executed i =
     (if i < length executed then
        (case at migs i of
           None \<Rightarrow> Inl (Some TypeError)
         | Some m \<Rightarrow>
             if name m \<noteq> executed ! i
             then Inl (Some (OutOfOrder (executed ! i) i (name m)))
             else ensureMigrationsInOrder_loop migs executed (i + 1))
      else Inr ())"
  by pat_completeness auto
termination
  by (relation "measure (\<lambda>(migs, executed, i). length executed - i)") auto

definition ensureMigrationsInOrder ::
  "'u NamedMigration list \<Rightarrow> migration_name list \<Rightarrow> thrown + unit" where
  "ensureMigrationsInOrder migs executed = ensureMigrationsInOrder_loop migs executed 0"

text \<open>\<open>getState\<close> only reads the database, so it returns no new one.\<close>

definition getState :: "'u MigratorProps \<Rightarrow> 'u Database \<Rightarrow> thrown + 'u MigrationState" where
  "getState props db =
     (case resolveMigrations props of
        Inl e \<Rightarrow> Inl e
      | Inr migs \<Rightarrow>
     (case getExecutedMigrations db of
        Inl e \<Rightarrow> Inl e
      | Inr executed \<Rightarrow>
     (case ensureNoMissingMigrations migs executed of
        Inl e \<Rightarrow> Inl e
      | Inr _ \<Rightarrow>
     (case (if \<not> allowUnordered props then ensureMigrationsInOrder migs executed else Inr ()) of
        Inl e \<Rightarrow> Inl e
      | Inr _ \<Rightarrow>
          Inr \<lparr>migrations = migs,
               executedMigrations = executed,
               lastMigration = (if executed = [] then None else Some (last executed)),
               pendingMigrations = getPendingMigrations migs executed\<rparr>))))"

subsection \<open>Running a batch\<close>

definition result :: "migration_name \<Rightarrow> MigrationDirection \<Rightarrow> status \<Rightarrow> MigrationResult" where
  "result n d s = \<lparr>migrationName = n, direction = d, status = s\<rparr>"

text \<open>
  The \<open>for\<close> loop of \<open>migrateUp\<close>, from index \<open>i\<close>. The \<open>try\<close> block is the operation and
  the insert; the \<open>catch\<close> block marks entry \<open>i\<close> and throws the result set, with the
  caught value as its error.
\<close>

function migrateUp_loop ::
  "'u NamedMigration list \<Rightarrow> (nat \<Rightarrow> timestamp) \<Rightarrow> nat \<Rightarrow> MigrationResult list \<Rightarrow>
   'u Database \<Rightarrow> (exn + MigrationResult list) \<times> 'u Database" where
  "migrateUp_loop pending clock i rs db =
     (if i < length rs then
        (case at pending i of
           None \<Rightarrow> (Inl (Plain (Some TypeError)), db)
         | Some migration \<Rightarrow>
            (case up migration db of
               (Inl e, db1) \<Rightarrow>
                 (Inl (MigrationResultSetError
                    \<lparr>error = e,
                     results = Some (rs[i := result (name migration) Up Error])\<rparr>), db1)
             | (Inr _, db1) \<Rightarrow>
                (case exec_insert (name migration, clock i) db1 of
                   (Inl e, db2) \<Rightarrow>
                     (Inl (MigrationResultSetError
                        \<lparr>error = e,
                         results = Some (rs[i := result (name migration) Up Error])\<rparr>), db2)
                 | (Inr _, db2) \<Rightarrow>
                     migrateUp_loop pending clock (i + 1)
                       (rs[i := result (name migration) Up Success]) db2)))
      else (Inr rs, db))"
  by pat_completeness auto
termination
  by (relation "measure (\<lambda>(pending, clock, i, rs, db). length rs - i)") auto

definition migrateUp ::
  "(nat \<Rightarrow> timestamp) \<Rightarrow> 'u MigrationState \<Rightarrow> step \<Rightarrow> 'u Database \<Rightarrow>
   (exn + MigrationResultSet) \<times> 'u Database" where
  "migrateUp clock state step db =
     (let migrationsToRun = slice0 step (pendingMigrations state);
          rs = map (\<lambda>migration. result (name migration) Up NotExecuted) migrationsToRun
      in case migrateUp_loop (pendingMigrations state) clock 0 rs db of
           (Inl e, db') \<Rightarrow> (Inl e, db')
         | (Inr rs', db') \<Rightarrow> (Inr \<lparr>error = None, results = Some rs'\<rparr>, db'))"

text \<open>
  \<open>migrationsToRollback\<close>: each name is looked up with \<open>find\<close>, which gives \<open>undefined\<close>
  (here \<open>None\<close>) when no migration has the name.
\<close>

definition migrationsToRollback ::
  "'u MigrationState \<Rightarrow> step \<Rightarrow> 'u NamedMigration option list" where
  "migrationsToRollback state step =
     map (\<lambda>n. find (\<lambda>it. name it = n) (migrations state))
       (slice0 step (rev (executedMigrations state)))"

text \<open>The \<open>for\<close> loop of \<open>migrateDown\<close>, from index \<open>i\<close>.\<close>

function migrateDown_loop ::
  "'u NamedMigration list \<Rightarrow> nat \<Rightarrow> MigrationResult list \<Rightarrow>
   'u Database \<Rightarrow> (exn + MigrationResult list) \<times> 'u Database" where
  "migrateDown_loop cands i rs db =
     (if i < length rs then
        (case at cands i of
           None \<Rightarrow> (Inl (Plain (Some TypeError)), db)
         | Some migration \<Rightarrow>
            (case down migration of
               None \<Rightarrow> migrateDown_loop cands (i + 1) rs db
             | Some down_op \<Rightarrow>
                (case down_op db of
                   (Inl e, db1) \<Rightarrow>
                     (Inl (MigrationResultSetError
                        \<lparr>error = e,
                         results = Some (rs[i := result (name migration) Down Error])\<rparr>), db1)
                 | (Inr _, db1) \<Rightarrow>
                    (case exec_delete (name migration) db1 of
                       (Inl e, db2) \<Rightarrow>
                         (Inl (MigrationResultSetError
                            \<lparr>error = e,
                             results = Some (rs[i := result (name migration) Down Error])\<rparr>), db2)
                     | (Inr _, db2) \<Rightarrow>
                         migrateDown_loop cands (i + 1)
                           (rs[i := result (name migration) Down Success]) db2))))
      else (Inr rs, db))"
  by pat_completeness auto
termination
  by (relation "measure (\<lambda>(cands, i, rs, db). length rs - i)") auto

text \<open>
  Building \<open>results\<close> reads \<open>migration.name\<close> of every candidate, which throws a
  \<open>TypeError\<close> when a candidate is \<open>undefined\<close>.
\<close>

definition migrateDown ::
  "'u MigrationState \<Rightarrow> step \<Rightarrow> 'u Database \<Rightarrow> (exn + MigrationResultSet) \<times> 'u Database" where
  "migrateDown state step db =
     (case those (migrationsToRollback state step) of
        None \<Rightarrow> (Inl (Plain (Some TypeError)), db)
      | Some cands \<Rightarrow>
          (let rs = map (\<lambda>migration. result (name migration) Down NotExecuted) cands
           in case migrateDown_loop cands 0 rs db of
                (Inl e, db') \<Rightarrow> (Inl e, db')
              | (Inr rs', db') \<Rightarrow> (Inr \<lparr>error = None, results = Some rs'\<rparr>, db')))"

subsection \<open>Orchestration\<close>

definition ensureMigrationTableExists :: "'u Database \<Rightarrow> (exn + unit) \<times> 'u Database" where
  "ensureMigrationTableExists db =
     (case exec_create_table db of
        (Inl e, db1) \<Rightarrow> (Inl (Plain e), db1)
      | (Inr _, db1) \<Rightarrow> (Inr (), db1))"

definition ensureMigrationTablesExists :: "'u Database \<Rightarrow> (exn + unit) \<times> 'u Database" where
  "ensureMigrationTablesExists db = ensureMigrationTableExists db"

text \<open>The closure \<open>run\<close> of \<open>runMigrations\<close>, the body of the transaction.\<close>

definition run ::
  "'u MigratorProps \<Rightarrow> (nat \<Rightarrow> timestamp) \<Rightarrow> ('u MigrationState \<Rightarrow> MigrationDirection \<times> step) \<Rightarrow>
   'u Database \<Rightarrow> (exn + MigrationResultSet) \<times> 'u Database" where
  "run props clock getMigrationDirectionAndStep db =
     (case getState props db of
        Inl e \<Rightarrow> (Inl (Plain e), db)
      | Inr state \<Rightarrow>
          if length (migrations state) = 0 then (Inr \<lparr>error = None, results = Some []\<rparr>, db)
          else
            (case getMigrationDirectionAndStep state of
               (dir, step) \<Rightarrow>
                 if step_le_zero step then (Inr \<lparr>error = None, results = Some []\<rparr>, db)
                 else
                   (case dir of
                      Down \<Rightarrow> migrateDown state step db
                    | Up \<Rightarrow> migrateUp clock state step db)))"

definition runMigrations ::
  "'u MigratorProps \<Rightarrow> (nat \<Rightarrow> timestamp) \<Rightarrow> ('u MigrationState \<Rightarrow> MigrationDirection \<times> step) \<Rightarrow>
   'u Database \<Rightarrow> (exn + MigrationResultSet) \<times> 'u Database" where
  "runMigrations props clock getMigrationDirectionAndStep db =
     transaction (run props clock getMigrationDirectionAndStep) db"

text \<open>
  The \<open>catch\<close> block of \<open>migrate\<close>: \<open>return { error }\<close> stores the caught value as it
  is.
\<close>

fun migrate_catch :: "exn \<Rightarrow> MigrationResultSet" where
  "migrate_catch (MigrationResultSetError resultSet) = resultSet"
| "migrate_catch (Plain e) = \<lparr>error = e, results = None\<rparr>"

text \<open>
  \<open>migrate\<close>: the \<open>try\<close> block is the table bootstrap followed by \<open>runMigrations\<close>. The
  result is a sum so that a value thrown to the caller would be an \<open>Inl\<close>.
\<close>

definition migrate ::
  "'u MigratorProps \<Rightarrow> (nat \<Rightarrow> timestamp) \<Rightarrow> ('u MigrationState \<Rightarrow> MigrationDirection \<times> step) \<Rightarrow>
   'u Database \<Rightarrow> (exn + MigrationResultSet) \<times> 'u Database" where
  "migrate props clock getMigrationDirectionAndStep db =
     (case (case ensureMigrationTablesExists db of
              (Inl e, db1) \<Rightarrow> (Inl e, db1)
            | (Inr _, db1) \<Rightarrow> runMigrations props clock getMigrationDirectionAndStep db1) of
        (Inl e, db2) \<Rightarrow> (Inr (migrate_catch e), db2)
      | (Inr resultSet, db2) \<Rightarrow> (Inr resultSet, db2))"

definition migrateToLatest ::
  "'u MigratorProps \<Rightarrow> (nat \<Rightarrow> timestamp) \<Rightarrow> 'u Database \<Rightarrow>
   (exn + MigrationResultSet) \<times> 'u Database" where
  "migrateToLatest props clock db = migrate props clock (\<lambda>state. (Up, Infinity)) db"

subsection \<open>One candidate's \<open>try\<close> block, and a batch as a sequence of them\<close>

text \<open>
  What the \<open>try\<close> block of \<open>migrateUp\<close> does for one candidate (the operation, then
  the insert into the log) and what the one of \<open>migrateDown\<close> does (nothing without a
  backward operation; otherwise the operation, then the delete). Each \<open>for\<close> loop above
  is described in these terms below.
\<close>

definition up_attempt :: "'u NamedMigration \<Rightarrow> timestamp \<Rightarrow> 'u operation" where
  "up_attempt m ts db =
     (case up m db of
        (Inl e, db1) \<Rightarrow> (Inl e, db1)
      | (Inr _, db1) \<Rightarrow> exec_insert (name m, ts) db1)"

definition down_attempt :: "'u NamedMigration \<Rightarrow> 'u operation" where
  "down_attempt m db =
     (case down m of
        None \<Rightarrow> (Inr (), db)
      | Some down_op \<Rightarrow>
          (case down_op db of
             (Inl e, db1) \<Rightarrow> (Inl e, db1)
           | (Inr _, db1) \<Rightarrow> exec_delete (name m) db1))"

text \<open>
  The candidates' \<open>try\<close> blocks one after the other, the first starting at index \<open>i\<close>:
  the database at the end when none throws, otherwise the index of the first that
  throws, the value it throws and the database it leaves.
\<close>

fun attempts_up ::
  "'u NamedMigration list \<Rightarrow> (nat \<Rightarrow> timestamp) \<Rightarrow> nat \<Rightarrow> 'u Database \<Rightarrow>
   (nat \<times> thrown \<times> 'u Database) + 'u Database" where
  "attempts_up [] clock i db = Inr db"
| "attempts_up (m # ms) clock i db =
     (case up_attempt m (clock i) db of
        (Inl e, db1) \<Rightarrow> Inl (i, e, db1)
      | (Inr _, db1) \<Rightarrow> attempts_up ms clock (Suc i) db1)"

fun attempts_down ::
  "'u NamedMigration list \<Rightarrow> nat \<Rightarrow> 'u Database \<Rightarrow>
   (nat \<times> thrown \<times> 'u Database) + 'u Database" where
  "attempts_down [] i db = Inr db"
| "attempts_down (m # ms) i db =
     (case down_attempt m db of
        (Inl e, db1) \<Rightarrow> Inl (i, e, db1)
      | (Inr _, db1) \<Rightarrow> attempts_down ms (Suc i) db1)"

fun attempts ::
  "MigrationDirection \<Rightarrow> (nat \<Rightarrow> timestamp) \<Rightarrow> 'u NamedMigration list \<Rightarrow> 'u Database \<Rightarrow>
   (nat \<times> thrown \<times> 'u Database) + 'u Database" where
  "attempts Up clock cands db = attempts_up cands clock 0 db"
| "attempts Down clock cands db = attempts_down cands 0 db"

text \<open>
  The status of a candidate whose \<open>try\<close> block returned, the results of a batch in
  which none threw, and those of a batch in which candidate \<open>k\<close> was the first to throw.
\<close>

definition down_status :: "'u NamedMigration \<Rightarrow> status" where
  "down_status m = (if down m = None then NotExecuted else Success)"

fun done_status :: "MigrationDirection \<Rightarrow> 'u NamedMigration \<Rightarrow> status" where
  "done_status Up m = Success"
| "done_status Down m = down_status m"

definition finished_results ::
  "MigrationDirection \<Rightarrow> 'u NamedMigration list \<Rightarrow> MigrationResult list" where
  "finished_results d cands = map (\<lambda>m. result (name m) d (done_status d m)) cands"

definition stopped_results ::
  "MigrationDirection \<Rightarrow> 'u NamedMigration list \<Rightarrow> nat \<Rightarrow> MigrationResult list" where
  "stopped_results d cands k =
     map (\<lambda>m. result (name m) d (done_status d m)) (take k cands) @
     result (name (cands ! k)) d Error #
     map (\<lambda>m. result (name m) d NotExecuted) (drop (Suc k) cands)"

text \<open>
  The shape of a results list whose batch stopped at candidate \<open>k\<close>: entry \<open>k\<close> is
  \<open>Error\<close>, no entry before it is, and every entry after it is \<open>NotExecuted\<close>.
\<close>

definition aborted_at :: "MigrationResult list \<Rightarrow> nat \<Rightarrow> bool" where
  "aborted_at rl k =
     (k < length rl \<and> status (rl ! k) = Error \<and>
      list_all (\<lambda>r. status r \<noteq> Error) (take k rl) \<and>
      list_all (\<lambda>r. status r = NotExecuted) (drop (Suc k) rl))"

text \<open>
  What \<open>run\<close> decides to execute, without executing it: the direction and the list of
  candidates, or nothing (state resolution throws, there are no migrations, the step is
  not positive, or a candidate of a Down batch is \<open>undefined\<close>).
\<close>

definition selected_batch ::
  "'u MigratorProps \<Rightarrow> ('u MigrationState \<Rightarrow> MigrationDirection \<times> step) \<Rightarrow> 'u Database \<Rightarrow>
   (MigrationDirection \<times> 'u NamedMigration list) option" where
  "selected_batch props getMigrationDirectionAndStep db =
     (case getState props db of
        Inl e \<Rightarrow> None
      | Inr state \<Rightarrow>
          if length (migrations state) = 0 then None
          else
            (case getMigrationDirectionAndStep state of
               (dir, step) \<Rightarrow>
                 if step_le_zero step then None
                 else
                   (case dir of
                      Down \<Rightarrow> map_option (Pair Down) (those (migrationsToRollback state step))
                    | Up \<Rightarrow> Some (Up, slice0 step (pendingMigrations state)))))"

section \<open>Concrete inputs\<close>

text \<open>
  A connection in autocommit mode whose driver refuses nothing, with the given log table
  and a \<open>user_data\<close> that counts the changes made to the database. \<open>ok_op\<close> makes one
  change and returns, \<open>failing_op\<close> makes a hundred and throws.
\<close>

definition database :: "log_row list option \<Rightarrow> nat \<Rightarrow> nat Database" where
  "database rows n = \<lparr>log_table = rows, user_data = n, open_transaction = [], refuses = {}\<rparr>"

definition ok_op :: "nat operation" where
  "ok_op db = (Inr (), db\<lparr>user_data := user_data db + 1\<rparr>)"

definition failing_op :: "nat operation" where
  "failing_op db = (Inl (Some (Thrown ''boom'')), db\<lparr>user_data := user_data db + 100\<rparr>)"

definition three_migrations :: "(migration_name \<times> nat Migration) list" where
  "three_migrations =
     [(''002_users'', \<lparr>up = ok_op, down = None\<rparr>),
      (''001_init'', \<lparr>up = ok_op, down = Some ok_op\<rparr>),
      (''003_index'', \<lparr>up = failing_op, down = Some failing_op\<rparr>)]"

definition three_props :: "nat MigratorProps" where
  "three_props = \<lparr>provider = Inr three_migrations, allowUnorderedMigrations = None\<rparr>"

definition throwing_props :: "nat MigratorProps" where
  "throwing_props = \<lparr>provider = Inl (Some (Thrown ''ENOENT'')), allowUnorderedMigrations = None\<rparr>"

definition fresh_db :: "nat Database" where
  "fresh_db = database None 0"

definition noon :: "nat \<Rightarrow> timestamp" where
  "noon i = ''2024-05-01T12:00:00.000Z''"

definition three_failed :: MigrationResultSet where
  "three_failed =
     \<lparr>error = Some (Thrown ''boom''),
      results = Some [result ''001_init'' Up Success, result ''002_users'' Up Success,
                      result ''003_index'' Up Error]\<rparr>"

definition named_init :: "nat NamedMigration" where
  "named_init = with_name \<lparr>up = ok_op, down = Some ok_op\<rparr> ''001_init''"

definition named_users :: "nat NamedMigration" where
  "named_users = with_name \<lparr>up = ok_op, down = None\<rparr> ''002_users''"

definition named_index :: "nat NamedMigration" where
  "named_index = with_name \<lparr>up = failing_op, down = Some failing_op\<rparr> ''003_index''"

definition state_none_executed :: "nat MigrationState" where
  "state_none_executed =
     \<lparr>migrations = [named_init, named_users, named_index],
      executedMigrations = [],
      lastMigration = None,
      pendingMigrations = [named_init, named_users, named_index]\<rparr>"

definition state_all_executed :: "nat MigrationState" where
  "state_all_executed =
     \<lparr>migrations = [named_init, named_users, named_index],
      executedMigrations = [''001_init'', ''002_users'', ''003_index''],
      lastMigration = Some ''003_index'',
      pendingMigrations = []\<rparr>"

definition empty_log_db :: "nat Database" where
  "empty_log_db = database (Some []) 0"

definition full_log_db :: "nat Database" where
  "full_log_db =
     database (Some [(''001_init'', ''2024-05-01T12:00:00.000Z''),
                        (''002_users'', ''2024-05-01T12:00:00.000Z''),
                        (''003_index'', ''2024-05-02T08:30:00.000Z'')]) 3"

definition down_failed :: MigrationResultSet where
  "down_failed =
     \<lparr>error = Some (Thrown ''boom''),
      results = Some [result ''003_index'' Down Error, result ''002_users'' Down NotExecuted,
                      result ''001_init'' Down NotExecuted]\<rparr>"

definition unordered_props :: "nat MigratorProps" where
  "unordered_props = \<lparr>provider = Inr three_migrations, allowUnorderedMigrations = Some True\<rparr>"

definition shuffled_log_db :: "nat Database" where
  "shuffled_log_db =
     database (Some [(''001_init'', ''2024-05-03T09:00:00.000Z''),
                        (''002_users'', ''2024-05-01T12:00:00.000Z''),
                        (''003_index'', ''2024-05-01T12:00:00.000Z'')]) 3"

definition state_shuffled :: "nat MigrationState" where
  "state_shuffled =
     \<lparr>migrations = [named_init, named_users, named_index],
      executedMigrations = [''002_users'', ''003_index'', ''001_init''],
      lastMigration = Some ''001_init'',
      pendingMigrations = []\<rparr>"

definition init_log_db :: "nat Database" where
  "init_log_db = database (Some [(''001_init'', ''2024-05-01T12:00:00.000Z'')]) 1"

definition state_init_executed :: "nat MigrationState" where
  "state_init_executed =
     \<lparr>migrations = [named_init, named_users, named_index],
      executedMigrations = [''001_init''],
      lastMigration = Some ''001_init'',
      pendingMigrations = [named_users, named_index]\<rparr>"

definition orphan_log_db :: "nat Database" where
  "orphan_log_db = database (Some [(''000_gone'', ''2024-05-01T12:00:00.000Z'')]) 1"

definition users_log_db :: "nat Database" where
  "users_log_db = database (Some [(''002_users'', ''2024-05-01T12:00:00.000Z'')]) 1"

definition two_log_db :: "nat Database" where
  "two_log_db =
     database (Some [(''001_init'', ''2024-05-01T12:00:00.000Z''),
                        (''002_users'', ''2024-05-02T08:30:00.000Z'')]) 2"

definition state_two_executed :: "nat MigrationState" where
  "state_two_executed =
     \<lparr>migrations = [named_init, named_users, named_index],
      executedMigrations = [''001_init'', ''002_users''],
      lastMigration = Some ''002_users'',
      pendingMigrations = [named_index]\<rparr>"

definition down_skipped :: MigrationResultSet where
  "down_skipped =
     \<lparr>error = None,
      results = Some [result ''002_users'' Down NotExecuted, result ''001_init'' Down Success]\<rparr>"





definition wiping_op :: "nat operation" where
  "wiping_op db = (Inr (), db\<lparr>log_table := Some [], user_data := 0\<rparr>)"

definition reset_props :: "nat MigratorProps" where
  "reset_props =
     \<lparr>provider = Inr [(''001_init'', \<lparr>up = ok_op, down = None\<rparr>),
                       (''002_reset'', \<lparr>up = wiping_op, down = None\<rparr>)],
      allowUnorderedMigrations = None\<rparr>"

definition reset_log_db :: "nat Database" where
  "reset_log_db = database (Some [(''002_reset'', ''2024-05-01T12:00:00.000Z'')]) 0"







definition undefined_props :: "nat MigratorProps" where
  "undefined_props = \<lparr>provider = Inl None, allowUnorderedMigrations = None\<rparr>"

definition throwing_undefined_op :: "nat operation" where
  "throwing_undefined_op db = (Inl None, db)"

definition undefined_op_props :: "nat MigratorProps" where
  "undefined_op_props =
     \<lparr>provider = Inr [(''001_init'', \<lparr>up = throwing_undefined_op, down = None\<rparr>)],
      allowUnorderedMigrations = None\<rparr>"

definition read_only_db :: "nat Database" where
  "read_only_db = (database None 0)\<lparr>refuses := {CreateTable, Insert, Delete, Begin}\<rparr>"

definition locked_db :: "nat Database" where
  "locked_db = (database (Some []) 0)\<lparr>refuses := {Begin}\<rparr>"

definition halfwidth_stop :: migration_name where
  "halfwidth_stop = [CHR 0xEF, CHR 0xBD, CHR 0xA1]"

definition grinning_face :: migration_name where
  "grinning_face = [CHR 0xF0, CHR 0x9F, CHR 0x98, CHR 0x80]"

definition unicode_props :: "nat MigratorProps" where
  "unicode_props =
     \<lparr>provider = Inr [(halfwidth_stop, \<lparr>up = ok_op, down = None\<rparr>),
                       (grinning_face, \<lparr>up = ok_op, down = None\<rparr>)],
      allowUnorderedMigrations = None\<rparr>"

definition unicode_log_db :: "nat Database" where
  "unicode_log_db =
     database (Some [(grinning_face, ''2024-05-01T12:00:00.000Z''),
                     (halfwidth_stop, ''2024-05-01T12:00:00.000Z'')]) 2"


text \<open>
  A connection after \<open>BEGIN\<close>, and the database that the batch of \<open>commit_props\<close> leaves
  behind.
\<close>

definition begun :: "nat Database \<Rightarrow> nat Database" where
  "begun db = db\<lparr>open_transaction := [(Begun, contents db)]\<rparr>"

section \<open>Properties of the two \<open>for\<close> loops and of state resolution\<close>

declare migrateUp_loop.simps [simp del]
declare migrateDown_loop.simps [simp del]
declare ensureMigrationsInOrder_loop.simps [simp del]

lemma at_Some: "i < length xs \<Longrightarrow> at xs i = Some (xs ! i)"
  by (simp add: at_def)

lemma status_result [simp]: "status (result n d s) = s"
  and migrationName_result [simp]: "migrationName (result n d s) = n"
  and direction_result [simp]: "direction (result n d s) = d"
  by (simp_all add: result_def)

lemma down_status_not_Error [simp]: "down_status m \<noteq> Error"
  by (simp add: down_status_def)

lemma done_status_not_Error [simp]: "done_status d m \<noteq> Error"
  by (cases d) simp_all

lemma drop_take_Cons:
  assumes "i < n" "n \<le> length xs"
  shows "drop i (take n xs) = xs ! i # drop (Suc i) (take n xs)"
proof -
  have "i < length (take n xs)" using assms by simp
  then have "take n xs ! i # drop (Suc i) (take n xs) = drop i (take n xs)"
    by (rule Cons_nth_drop_Suc)
  moreover have "take n xs ! i = xs ! i" using assms by simp
  ultimately show ?thesis by (simp only:)
qed

subsection \<open>The loop of \<open>migrateUp\<close>\<close>

lemma migrateUp_loop_stop:
  "\<not> i < length rs \<Longrightarrow> migrateUp_loop pending clock i rs db = (Inr rs, db)"
  by (simp add: migrateUp_loop.simps)

lemma migrateUp_loop_throw:
  assumes "i < length rs" "i < length pending"
    and "up_attempt (pending ! i) (clock i) db = (Inl e, db1)"
  shows "migrateUp_loop pending clock i rs db =
     (Inl (MigrationResultSetError
        \<lparr>error = e, results = Some (rs[i := result (name (pending ! i)) Up Error])\<rparr>), db1)"
  using assms
  by (subst migrateUp_loop.simps)
     (auto simp: at_Some up_attempt_def split: prod.splits sum.splits)

lemma migrateUp_loop_continue:
  assumes "i < length rs" "i < length pending"
    and "up_attempt (pending ! i) (clock i) db = (Inr u, db1)"
  shows "migrateUp_loop pending clock i rs db =
     migrateUp_loop pending clock (i + 1) (rs[i := result (name (pending ! i)) Up Success]) db1"
  using assms
  by (subst migrateUp_loop.simps)
     (auto simp: at_Some up_attempt_def split: prod.splits sum.splits)

lemma attempts_up_drop:
  assumes "i < n" "n \<le> length pending"
  shows "attempts_up (drop i (take n pending)) clock i db =
     (case up_attempt (pending ! i) (clock i) db of
        (Inl e, db1) \<Rightarrow> Inl (i, e, db1)
      | (Inr _, db1) \<Rightarrow> attempts_up (drop (Suc i) (take n pending)) clock (Suc i) db1)"
  by (simp add: drop_take_Cons [OF assms])

lemma migrateUp_loop_outcome:
  assumes "migrateUp_loop pending clock i rs db = (out, db')"
    and "length rs \<le> length pending"
    and "\<forall>j. i \<le> j \<and> j < length rs \<longrightarrow> rs ! j = result (name (pending ! j)) Up NotExecuted"
    and "\<forall>j<i. j < length rs \<longrightarrow> rs ! j = result (name (pending ! j)) Up Success"
  shows "case out of
      Inr rl \<Rightarrow> length rl = length rs \<and>
        (\<forall>j<length rl. rl ! j = result (name (pending ! j)) Up Success) \<and>
        attempts_up (drop i (take (length rs) pending)) clock i db = Inr db'
    | Inl x \<Rightarrow> \<exists>k e rl. x = MigrationResultSetError \<lparr>error = e, results = Some rl\<rparr> \<and>
        length rl = length rs \<and> i \<le> k \<and> k < length rl \<and>
        rl ! k = result (name (pending ! k)) Up Error \<and>
        (\<forall>j<k. rl ! j = result (name (pending ! j)) Up Success) \<and>
        (\<forall>j. k < j \<and> j < length rl \<longrightarrow> rl ! j = result (name (pending ! j)) Up NotExecuted) \<and>
        attempts_up (drop i (take (length rs) pending)) clock i db = Inl (k, e, db')"
  using assms
proof (induction pending clock i rs db arbitrary: out db' rule: migrateUp_loop.induct)
  case (1 pending clock i rs db)
  show ?case
  proof (cases "i < length rs")
    case False
    with "1.prems"(1) have "out = Inr rs" "db' = db"
      by (simp_all add: migrateUp_loop_stop)
    moreover from False "1.prems"(4)
    have "\<forall>j<length rs. rs ! j = result (name (pending ! j)) Up Success"
      by auto
    moreover from False have "drop i (take (length rs) pending) = []" by simp
    ultimately show ?thesis by simp
  next
    case True
    with "1.prems"(2) have ip: "i < length pending" by simp
    obtain r db1 where att: "up_attempt (pending ! i) (clock i) db = (r, db1)"
      by (cases "up_attempt (pending ! i) (clock i) db")
    note unfold = attempts_up_drop [where clock = clock and db = db, OF True "1.prems"(2)]
    show ?thesis
    proof (cases r)
      case (Inl e)
      let ?rl = "rs[i := result (name (pending ! i)) Up Error]"
      from migrateUp_loop_throw [where clock = clock, OF True ip att [unfolded Inl]] "1.prems"(1)
      have out: "out = Inl (MigrationResultSetError \<lparr>error = e, results = Some ?rl\<rparr>)"
        and db': "db' = db1" by simp_all
      have "?rl ! i = result (name (pending ! i)) Up Error" using True by simp
      moreover have "\<forall>j<i. ?rl ! j = result (name (pending ! j)) Up Success"
        using "1.prems"(4) True by simp
      moreover have "\<forall>j. i < j \<and> j < length ?rl \<longrightarrow> ?rl ! j = result (name (pending ! j)) Up NotExecuted"
        using "1.prems"(3) by simp
      moreover have "attempts_up (drop i (take (length rs) pending)) clock i db = Inl (i, e, db')"
        using unfold att Inl db' by simp
      ultimately show ?thesis
        unfolding out using True by (auto intro!: exI [of _ i])
    next
      case (Inr u)
      let ?rs = "rs[i := result (name (pending ! i)) Up Success]"
      have step: "migrateUp_loop pending clock (i + 1) ?rs db1 = (out, db')"
        using migrateUp_loop_continue [where clock = clock, OF True ip att [unfolded Inr]]
          "1.prems"(1) by simp
      have a: "at pending i = Some (pending ! i)" using ip by (rule at_Some)
      obtain r0 d0 where u0: "up (pending ! i) db = (r0, d0)" by (cases "up (pending ! i) db")
      from att Inr u0 obtain u1 where r0: "r0 = Inr u1"
        by (cases r0) (auto simp: up_attempt_def)
      from att Inr u0 r0 have ins: "exec_insert (name (pending ! i), clock i) d0 = (Inr u, db1)"
        by (simp add: up_attempt_def)
      have inv1: "length ?rs \<le> length pending" using "1.prems"(2) by simp
      have inv2: "\<forall>j. i + 1 \<le> j \<and> j < length ?rs \<longrightarrow> ?rs ! j = result (name (pending ! j)) Up NotExecuted"
        using "1.prems"(3) by simp
      have inv3: "\<forall>j<i + 1. j < length ?rs \<longrightarrow> ?rs ! j = result (name (pending ! j)) Up Success"
        using "1.prems"(4) True by (auto simp: nth_list_update less_Suc_eq)
      have next_attempts: "attempts_up (drop i (take (length rs) pending)) clock i db =
          attempts_up (drop (i + 1) (take (length ?rs) pending)) clock (i + 1) db1"
        using unfold att Inr by simp
      have IH: "case out of
          Inr rl \<Rightarrow> length rl = length ?rs \<and>
            (\<forall>j<length rl. rl ! j = result (name (pending ! j)) Up Success) \<and>
            attempts_up (drop (i + 1) (take (length ?rs) pending)) clock (i + 1) db1 = Inr db'
        | Inl x \<Rightarrow> \<exists>k e rl. x = MigrationResultSetError \<lparr>error = e, results = Some rl\<rparr> \<and>
            length rl = length ?rs \<and> i + 1 \<le> k \<and> k < length rl \<and>
            rl ! k = result (name (pending ! k)) Up Error \<and>
            (\<forall>j<k. rl ! j = result (name (pending ! j)) Up Success) \<and>
            (\<forall>j. k < j \<and> j < length rl \<longrightarrow> rl ! j = result (name (pending ! j)) Up NotExecuted) \<and>
            attempts_up (drop (i + 1) (take (length ?rs) pending)) clock (i + 1) db1 =
              Inl (k, e, db')"
        by (rule "1.IH" [OF True a u0 [symmetric] r0 ins [symmetric] refl step inv1 inv2 inv3])
      show ?thesis
      proof (cases out)
        case (Inr rl)
        with IH next_attempts show ?thesis by simp
      next
        case (Inl x)
        with IH have "\<exists>k e rl. x = MigrationResultSetError \<lparr>error = e, results = Some rl\<rparr> \<and>
            length rl = length rs \<and> i + 1 \<le> k \<and> k < length rl \<and>
            rl ! k = result (name (pending ! k)) Up Error \<and>
            (\<forall>j<k. rl ! j = result (name (pending ! j)) Up Success) \<and>
            (\<forall>j. k < j \<and> j < length rl \<longrightarrow> rl ! j = result (name (pending ! j)) Up NotExecuted) \<and>
            attempts_up (drop i (take (length rs) pending)) clock i db = Inl (k, e, db')"
          using next_attempts by simp
        then obtain k e rl where
          f1: "x = MigrationResultSetError \<lparr>error = e, results = Some rl\<rparr>"
          and f2: "length rl = length rs" and f3: "i + 1 \<le> k" and f4: "k < length rl"
          and f5: "rl ! k = result (name (pending ! k)) Up Error"
          and f6: "\<forall>j<k. rl ! j = result (name (pending ! j)) Up Success"
          and f7: "\<forall>j. k < j \<and> j < length rl \<longrightarrow> rl ! j = result (name (pending ! j)) Up NotExecuted"
          and f8: "attempts_up (drop i (take (length rs) pending)) clock i db = Inl (k, e, db')"
          by blast
        from f3 have "i \<le> k" by simp
        with f1 f2 f4 f5 f6 f7 f8
        show ?thesis unfolding Inl by (auto intro!: exI [of _ k])
      qed
    qed
  qed
qed

subsection \<open>The loop of \<open>migrateDown\<close>\<close>

lemma migrateDown_loop_stop:
  "\<not> i < length rs \<Longrightarrow> migrateDown_loop cands i rs db = (Inr rs, db)"
  by (simp add: migrateDown_loop.simps)

lemma migrateDown_loop_skip:
  assumes "i < length rs" "i < length cands" "down (cands ! i) = None"
  shows "migrateDown_loop cands i rs db = migrateDown_loop cands (i + 1) rs db"
  using assms by (subst migrateDown_loop.simps) (simp add: at_Some)

lemma migrateDown_loop_throw:
  assumes "i < length rs" "i < length cands" "down (cands ! i) \<noteq> None"
    and "down_attempt (cands ! i) db = (Inl e, db1)"
  shows "migrateDown_loop cands i rs db =
     (Inl (MigrationResultSetError
        \<lparr>error = e, results = Some (rs[i := result (name (cands ! i)) Down Error])\<rparr>), db1)"
  using assms
  by (subst migrateDown_loop.simps)
     (auto simp: at_Some down_attempt_def split: prod.splits sum.splits option.splits)

lemma migrateDown_loop_continue:
  assumes "i < length rs" "i < length cands" "down (cands ! i) \<noteq> None"
    and "down_attempt (cands ! i) db = (Inr u, db1)"
  shows "migrateDown_loop cands i rs db =
     migrateDown_loop cands (i + 1) (rs[i := result (name (cands ! i)) Down Success]) db1"
  using assms
  by (subst migrateDown_loop.simps)
     (auto simp: at_Some down_attempt_def split: prod.splits sum.splits option.splits)

lemma attempts_down_drop:
  assumes "i < n" "n \<le> length cands"
  shows "attempts_down (drop i (take n cands)) i db =
     (case down_attempt (cands ! i) db of
        (Inl e, db1) \<Rightarrow> Inl (i, e, db1)
      | (Inr _, db1) \<Rightarrow> attempts_down (drop (Suc i) (take n cands)) (Suc i) db1)"
  by (simp add: drop_take_Cons [OF assms])

lemma migrateDown_loop_outcome:
  assumes "migrateDown_loop cands i rs db = (out, db')"
    and "length rs \<le> length cands"
    and "\<forall>j. i \<le> j \<and> j < length rs \<longrightarrow> rs ! j = result (name (cands ! j)) Down NotExecuted"
    and "\<forall>j<i. j < length rs \<longrightarrow> rs ! j = result (name (cands ! j)) Down (down_status (cands ! j))"
  shows "case out of
      Inr rl \<Rightarrow> length rl = length rs \<and>
        (\<forall>j<length rl. rl ! j = result (name (cands ! j)) Down (down_status (cands ! j))) \<and>
        attempts_down (drop i (take (length rs) cands)) i db = Inr db'
    | Inl x \<Rightarrow> \<exists>k e rl. x = MigrationResultSetError \<lparr>error = e, results = Some rl\<rparr> \<and>
        length rl = length rs \<and> i \<le> k \<and> k < length rl \<and> down (cands ! k) \<noteq> None \<and>
        rl ! k = result (name (cands ! k)) Down Error \<and>
        (\<forall>j<k. rl ! j = result (name (cands ! j)) Down (down_status (cands ! j))) \<and>
        (\<forall>j. k < j \<and> j < length rl \<longrightarrow> rl ! j = result (name (cands ! j)) Down NotExecuted) \<and>
        attempts_down (drop i (take (length rs) cands)) i db = Inl (k, e, db')"
  using assms
proof (induction cands i rs db arbitrary: out db' rule: migrateDown_loop.induct)
  case (1 cands i rs db)
  show ?case
  proof (cases "i < length rs")
    case False
    with "1.prems"(1) have "out = Inr rs" "db' = db"
      by (simp_all add: migrateDown_loop_stop)
    moreover from False "1.prems"(4)
    have "\<forall>j<length rs. rs ! j = result (name (cands ! j)) Down (down_status (cands ! j))"
      by auto
    moreover from False have "drop i (take (length rs) cands) = []" by simp
    ultimately show ?thesis by simp
  next
    case True
    with "1.prems"(2) have ic: "i < length cands" by simp
    have a: "at cands i = Some (cands ! i)" using ic by (rule at_Some)
    note unfold = attempts_down_drop [where db = db, OF True "1.prems"(2)]
    show ?thesis
    proof (cases "down (cands ! i)")
      case None
      have step: "migrateDown_loop cands (i + 1) rs db = (out, db')"
        using migrateDown_loop_skip [OF True ic None] "1.prems"(1) by simp
      have inv2: "\<forall>j. i + 1 \<le> j \<and> j < length rs \<longrightarrow> rs ! j = result (name (cands ! j)) Down NotExecuted"
        using "1.prems"(3) by simp
      have inv3: "\<forall>j<i + 1. j < length rs \<longrightarrow> rs ! j = result (name (cands ! j)) Down (down_status (cands ! j))"
        using "1.prems"(3,4) True None by (auto simp: less_Suc_eq down_status_def)
      have next_attempts: "attempts_down (drop i (take (length rs) cands)) i db =
          attempts_down (drop (i + 1) (take (length rs) cands)) (i + 1) db"
        using unfold None by (simp add: down_attempt_def)
      have IH: "case out of
          Inr rl \<Rightarrow> length rl = length rs \<and>
            (\<forall>j<length rl. rl ! j = result (name (cands ! j)) Down (down_status (cands ! j))) \<and>
            attempts_down (drop (i + 1) (take (length rs) cands)) (i + 1) db = Inr db'
        | Inl x \<Rightarrow> \<exists>k e rl. x = MigrationResultSetError \<lparr>error = e, results = Some rl\<rparr> \<and>
            length rl = length rs \<and> i + 1 \<le> k \<and> k < length rl \<and> down (cands ! k) \<noteq> None \<and>
            rl ! k = result (name (cands ! k)) Down Error \<and>
            (\<forall>j<k. rl ! j = result (name (cands ! j)) Down (down_status (cands ! j))) \<and>
            (\<forall>j. k < j \<and> j < length rl \<longrightarrow> rl ! j = result (name (cands ! j)) Down NotExecuted) \<and>
            attempts_down (drop (i + 1) (take (length rs) cands)) (i + 1) db = Inl (k, e, db')"
        by (rule "1.IH"(1) [OF True a None step "1.prems"(2) inv2 inv3])
      show ?thesis
      proof (cases out)
        case (Inr rl)
        with IH next_attempts show ?thesis by simp
      next
        case (Inl x)
        with IH have "\<exists>k e rl. x = MigrationResultSetError \<lparr>error = e, results = Some rl\<rparr> \<and>
            length rl = length rs \<and> i + 1 \<le> k \<and> k < length rl \<and> down (cands ! k) \<noteq> None \<and>
            rl ! k = result (name (cands ! k)) Down Error \<and>
            (\<forall>j<k. rl ! j = result (name (cands ! j)) Down (down_status (cands ! j))) \<and>
            (\<forall>j. k < j \<and> j < length rl \<longrightarrow> rl ! j = result (name (cands ! j)) Down NotExecuted) \<and>
            attempts_down (drop i (take (length rs) cands)) i db = Inl (k, e, db')"
          using next_attempts by simp
        then obtain k e rl where
          f1: "x = MigrationResultSetError \<lparr>error = e, results = Some rl\<rparr>"
          and f2: "length rl = length rs" and f3: "i + 1 \<le> k" and f4: "k < length rl"
          and f4': "down (cands ! k) \<noteq> None"
          and f5: "rl ! k = result (name (cands ! k)) Down Error"
          and f6: "\<forall>j<k. rl ! j = result (name (cands ! j)) Down (down_status (cands ! j))"
          and f7: "\<forall>j. k < j \<and> j < length rl \<longrightarrow> rl ! j = result (name (cands ! j)) Down NotExecuted"
          and f8: "attempts_down (drop i (take (length rs) cands)) i db = Inl (k, e, db')"
          by blast
        from f3 have "i \<le> k" by simp
        with f1 f2 f4 f4' f5 f6 f7 f8
        show ?thesis unfolding Inl by (auto intro!: exI [of _ k])
      qed
    next
      case (Some down_op)
      then have dn: "down (cands ! i) \<noteq> None" by simp
      obtain r db1 where att: "down_attempt (cands ! i) db = (r, db1)"
        by (cases "down_attempt (cands ! i) db")
      show ?thesis
      proof (cases r)
        case (Inl e)
        let ?rl = "rs[i := result (name (cands ! i)) Down Error]"
        from migrateDown_loop_throw [OF True ic dn att [unfolded Inl]] "1.prems"(1)
        have out: "out = Inl (MigrationResultSetError \<lparr>error = e, results = Some ?rl\<rparr>)"
          and db': "db' = db1" by simp_all
        have "?rl ! i = result (name (cands ! i)) Down Error" using True by simp
        moreover have "\<forall>j<i. ?rl ! j = result (name (cands ! j)) Down (down_status (cands ! j))"
          using "1.prems"(4) True by simp
        moreover have "\<forall>j. i < j \<and> j < length ?rl \<longrightarrow> ?rl ! j = result (name (cands ! j)) Down NotExecuted"
          using "1.prems"(3) by simp
        moreover have "attempts_down (drop i (take (length rs) cands)) i db = Inl (i, e, db')"
          using unfold att Inl db' by simp
        ultimately show ?thesis
          unfolding out using True dn by (auto intro!: exI [of _ i])
      next
        case (Inr u)
        let ?rs = "rs[i := result (name (cands ! i)) Down Success]"
        have step: "migrateDown_loop cands (i + 1) ?rs db1 = (out, db')"
          using migrateDown_loop_continue [OF True ic dn att [unfolded Inr]] "1.prems"(1) by simp
        obtain r0 d0 where u0: "down_op db = (r0, d0)" by (cases "down_op db")
        from att Inr u0 Some obtain u1 where r0: "r0 = Inr u1"
          by (cases r0) (auto simp: down_attempt_def)
        from att Inr u0 r0 Some have del: "exec_delete (name (cands ! i)) d0 = (Inr u, db1)"
          by (simp add: down_attempt_def)
        have inv1: "length ?rs \<le> length cands" using "1.prems"(2) by simp
        have inv2: "\<forall>j. i + 1 \<le> j \<and> j < length ?rs \<longrightarrow> ?rs ! j = result (name (cands ! j)) Down NotExecuted"
          using "1.prems"(3) by simp
        have inv3: "\<forall>j<i + 1. j < length ?rs \<longrightarrow> ?rs ! j = result (name (cands ! j)) Down (down_status (cands ! j))"
          using "1.prems"(4) True dn by (auto simp: nth_list_update less_Suc_eq down_status_def)
        have next_attempts: "attempts_down (drop i (take (length rs) cands)) i db =
            attempts_down (drop (i + 1) (take (length ?rs) cands)) (i + 1) db1"
          using unfold att Inr by simp
        have IH: "case out of
            Inr rl \<Rightarrow> length rl = length ?rs \<and>
              (\<forall>j<length rl. rl ! j = result (name (cands ! j)) Down (down_status (cands ! j))) \<and>
              attempts_down (drop (i + 1) (take (length ?rs) cands)) (i + 1) db1 = Inr db'
          | Inl x \<Rightarrow> \<exists>k e rl. x = MigrationResultSetError \<lparr>error = e, results = Some rl\<rparr> \<and>
              length rl = length ?rs \<and> i + 1 \<le> k \<and> k < length rl \<and> down (cands ! k) \<noteq> None \<and>
              rl ! k = result (name (cands ! k)) Down Error \<and>
              (\<forall>j<k. rl ! j = result (name (cands ! j)) Down (down_status (cands ! j))) \<and>
              (\<forall>j. k < j \<and> j < length rl \<longrightarrow> rl ! j = result (name (cands ! j)) Down NotExecuted) \<and>
              attempts_down (drop (i + 1) (take (length ?rs) cands)) (i + 1) db1 =
                Inl (k, e, db')"
          by (rule "1.IH"(2) [OF True a Some u0 [symmetric] r0 del [symmetric] refl step inv1 inv2 inv3])
        show ?thesis
        proof (cases out)
          case (Inr rl)
          with IH next_attempts show ?thesis by simp
        next
          case (Inl x)
          with IH have "\<exists>k e rl. x = MigrationResultSetError \<lparr>error = e, results = Some rl\<rparr> \<and>
              length rl = length rs \<and> i + 1 \<le> k \<and> k < length rl \<and> down (cands ! k) \<noteq> None \<and>
              rl ! k = result (name (cands ! k)) Down Error \<and>
              (\<forall>j<k. rl ! j = result (name (cands ! j)) Down (down_status (cands ! j))) \<and>
              (\<forall>j. k < j \<and> j < length rl \<longrightarrow> rl ! j = result (name (cands ! j)) Down NotExecuted) \<and>
              attempts_down (drop i (take (length rs) cands)) i db = Inl (k, e, db')"
            using next_attempts by simp
          then obtain k e rl where
            f1: "x = MigrationResultSetError \<lparr>error = e, results = Some rl\<rparr>"
            and f2: "length rl = length rs" and f3: "i + 1 \<le> k" and f4: "k < length rl"
            and f4': "down (cands ! k) \<noteq> None"
            and f5: "rl ! k = result (name (cands ! k)) Down Error"
            and f6: "\<forall>j<k. rl ! j = result (name (cands ! j)) Down (down_status (cands ! j))"
            and f7: "\<forall>j. k < j \<and> j < length rl \<longrightarrow> rl ! j = result (name (cands ! j)) Down NotExecuted"
            and f8: "attempts_down (drop i (take (length rs) cands)) i db = Inl (k, e, db')"
            by blast
          from f3 have "i \<le> k" by simp
          with f1 f2 f4 f4' f5 f6 f7 f8
          show ?thesis unfolding Inl by (auto intro!: exI [of _ k])
        qed
      qed
    qed
  qed
qed

subsection \<open>\<open>migrateUp\<close> and \<open>migrateDown\<close> as sequences of \<open>try\<close> blocks\<close>

lemma slice0_is_take: "\<exists>n. slice0 step xs = take n xs"
proof (cases step)
  case (Finite n)
  then show ?thesis by auto
next
  case Infinity
  then have "slice0 step xs = take (length xs) xs" by simp
  then show ?thesis by blast
qed

lemma length_slice0: "length (slice0 step xs) \<le> length xs"
  using slice0_is_take [of step xs] by auto

lemma nth_slice0: "j < length (slice0 step xs) \<Longrightarrow> slice0 step xs ! j = xs ! j"
  using slice0_is_take [of step xs] by auto

lemma set_slice0: "set (slice0 step xs) \<subseteq> set xs"
  using slice0_is_take [of step xs] by (auto dest: in_set_takeD)

lemma take_length_slice0: "take (length (slice0 step xs)) xs = slice0 step xs"
proof -
  from slice0_is_take [of step xs] obtain n where n: "slice0 step xs = take n xs" by blast
  have "take (length (take n xs)) xs = take n xs"
    by (simp add: min_def)
  with n show ?thesis by simp
qed

lemma length_stopped_results:
  "k < length cands \<Longrightarrow> length (stopped_results d cands k) = length cands"
  by (simp add: stopped_results_def)

lemma nth_stopped_results:
  assumes "k < length cands" "j < length cands"
  shows "stopped_results d cands k ! j =
     (if j < k then result (name (cands ! j)) d (done_status d (cands ! j))
      else if j = k then result (name (cands ! k)) d Error
      else result (name (cands ! j)) d NotExecuted)"
proof -
  consider "j < k" | "j = k" | "k < j" by linarith
  then show ?thesis
  proof cases
    case 1
    with assms show ?thesis by (simp add: stopped_results_def nth_append)
  next
    case 2
    with assms show ?thesis by (simp add: stopped_results_def nth_append)
  next
    case 3
    then obtain t where t: "j = Suc k + t" using less_iff_Suc_add by auto
    with assms 3 show ?thesis
      by (simp add: stopped_results_def nth_append nth_Cons')
  qed
qed

lemma aborted_atI:
  assumes "k < length rl" "status (rl ! k) = Error"
    and "\<forall>j<k. status (rl ! j) \<noteq> Error"
    and "\<forall>j. k < j \<and> j < length rl \<longrightarrow> status (rl ! j) = NotExecuted"
  shows "aborted_at rl k"
  using assms by (auto simp: aborted_at_def list_all_length)

lemma aborted_at_stopped_results:
  assumes "k < length cands"
  shows "aborted_at (stopped_results d cands k) k"
  using assms
  by (intro aborted_atI) (simp_all add: length_stopped_results nth_stopped_results)

lemma finished_results_no_Error:
  "list_all (\<lambda>r. status r \<noteq> Error) (finished_results d cands)"
  by (simp add: finished_results_def list_all_iff)

lemma attempts_up_index:
  "attempts_up cands clock i db = Inl (k, e, db') \<Longrightarrow> i \<le> k \<and> k < i + length cands"
proof (induction cands arbitrary: i db)
  case Nil
  then show ?case by simp
next
  case (Cons m ms)
  obtain r d where a: "up_attempt m (clock i) db = (r, d)" by (cases "up_attempt m (clock i) db")
  show ?case
  proof (cases r)
    case (Inl x)
    with Cons.prems a show ?thesis by simp
  next
    case (Inr u)
    with Cons.prems a have "attempts_up ms clock (Suc i) d = Inl (k, e, db')" by simp
    from Cons.IH [OF this] show ?thesis by simp
  qed
qed

lemma attempts_down_index:
  "attempts_down cands i db = Inl (k, e, db') \<Longrightarrow> i \<le> k \<and> k < i + length cands"
proof (induction cands arbitrary: i db)
  case Nil
  then show ?case by simp
next
  case (Cons m ms)
  obtain r d where a: "down_attempt m db = (r, d)" by (cases "down_attempt m db")
  show ?case
  proof (cases r)
    case (Inl x)
    with Cons.prems a show ?thesis by simp
  next
    case (Inr u)
    with Cons.prems a have "attempts_down ms (Suc i) d = Inl (k, e, db')" by simp
    from Cons.IH [OF this] show ?thesis by simp
  qed
qed

lemma attempts_index:
  "attempts d clock cands db = Inl (k, e, db') \<Longrightarrow> k < length cands"
  by (cases d) (auto dest: attempts_up_index attempts_down_index)

lemma migrateUp_eq:
  assumes "cands = slice0 step (pendingMigrations state)"
  shows "migrateUp clock state step db =
     (case attempts_up cands clock 0 db of
        Inr db' \<Rightarrow> (Inr \<lparr>error = None, results = Some (finished_results Up cands)\<rparr>, db')
      | Inl (k, e, db') \<Rightarrow>
          (Inl (MigrationResultSetError
             \<lparr>error = e, results = Some (stopped_results Up cands k)\<rparr>), db'))"
proof -
  let ?pending = "pendingMigrations state"
  let ?rs = "map (\<lambda>m. result (name m) Up NotExecuted) cands"
  obtain lo ld where loop: "migrateUp_loop ?pending clock 0 ?rs db = (lo, ld)"
    by (cases "migrateUp_loop ?pending clock 0 ?rs db")
  have len: "length ?rs \<le> length ?pending"
    using assms by (simp add: length_slice0)
  have nth: "\<And>j. j < length cands \<Longrightarrow> ?pending ! j = cands ! j"
    using assms by (simp add: nth_slice0)
  have inv2: "\<forall>j. 0 \<le> j \<and> j < length ?rs \<longrightarrow> ?rs ! j = result (name (?pending ! j)) Up NotExecuted"
    using nth by simp
  have inv3: "\<forall>j<0. j < length ?rs \<longrightarrow> ?rs ! j = result (name (?pending ! j)) Up Success"
    by simp
  have cs: "drop 0 (take (length ?rs) ?pending) = cands"
    using assms by (simp add: take_length_slice0)
  note L = migrateUp_loop_outcome [OF loop len inv2 inv3, unfolded cs]
  have mu: "migrateUp clock state step db =
      (case lo of Inl x \<Rightarrow> (Inl x, ld)
       | Inr rl \<Rightarrow> (Inr \<lparr>error = None, results = Some rl\<rparr>, ld))"
    using loop assms by (simp add: migrateUp_def Let_def split: sum.splits)
  show ?thesis
  proof (cases lo)
    case (Inr rl)
    with L have lrl: "length rl = length cands"
      and all: "\<forall>j<length rl. rl ! j = result (name (?pending ! j)) Up Success"
      and att: "attempts_up cands clock 0 db = Inr ld" by simp_all
    have "rl = finished_results Up cands"
      using lrl all nth by (intro nth_equalityI) (simp_all add: finished_results_def)
    with mu Inr att show ?thesis by simp
  next
    case (Inl x)
    with L obtain k e rl where
      x: "x = MigrationResultSetError \<lparr>error = e, results = Some rl\<rparr>"
      and lrl: "length rl = length cands" and k: "k < length rl"
      and ek: "rl ! k = result (name (?pending ! k)) Up Error"
      and before: "\<forall>j<k. rl ! j = result (name (?pending ! j)) Up Success"
      and after: "\<forall>j. k < j \<and> j < length rl \<longrightarrow> rl ! j = result (name (?pending ! j)) Up NotExecuted"
      and att: "attempts_up cands clock 0 db = Inl (k, e, ld)"
      by auto
    have kc: "k < length cands" using k lrl by simp
    have "rl = stopped_results Up cands k"
    proof (rule nth_equalityI)
      show "length rl = length (stopped_results Up cands k)"
        using lrl kc by (simp add: length_stopped_results)
      fix j assume "j < length rl"
      then have j: "j < length cands" using lrl by simp
      consider "j < k" | "j = k" | "k < j" by linarith
      then show "rl ! j = stopped_results Up cands k ! j"
      proof cases
        case 1
        with before nth j kc show ?thesis by (simp add: nth_stopped_results)
      next
        case 2
        with ek nth j kc show ?thesis by (simp add: nth_stopped_results)
      next
        case 3
        with after nth j kc lrl show ?thesis by (simp add: nth_stopped_results)
      qed
    qed
    with mu Inl x att show ?thesis by simp
  qed
qed

lemma migrateDown_eq:
  assumes "those (migrationsToRollback state step) = Some cands"
  shows "migrateDown state step db =
     (case attempts_down cands 0 db of
        Inr db' \<Rightarrow> (Inr \<lparr>error = None, results = Some (finished_results Down cands)\<rparr>, db')
      | Inl (k, e, db') \<Rightarrow>
          (Inl (MigrationResultSetError
             \<lparr>error = e, results = Some (stopped_results Down cands k)\<rparr>), db'))"
proof -
  let ?rs = "map (\<lambda>m. result (name m) Down NotExecuted) cands"
  obtain lo ld where loop: "migrateDown_loop cands 0 ?rs db = (lo, ld)"
    by (cases "migrateDown_loop cands 0 ?rs db")
  have len: "length ?rs \<le> length cands" by simp
  have inv2: "\<forall>j. 0 \<le> j \<and> j < length ?rs \<longrightarrow> ?rs ! j = result (name (cands ! j)) Down NotExecuted"
    by simp
  have inv3: "\<forall>j<0. j < length ?rs \<longrightarrow> ?rs ! j = result (name (cands ! j)) Down (down_status (cands ! j))"
    by simp
  have cs: "drop 0 (take (length ?rs) cands) = cands" by simp
  note L = migrateDown_loop_outcome [OF loop len inv2 inv3, unfolded cs]
  have md: "migrateDown state step db =
      (case lo of Inl x \<Rightarrow> (Inl x, ld)
       | Inr rl \<Rightarrow> (Inr \<lparr>error = None, results = Some rl\<rparr>, ld))"
    using loop assms by (simp add: migrateDown_def Let_def split: sum.splits)
  show ?thesis
  proof (cases lo)
    case (Inr rl)
    with L have lrl: "length rl = length cands"
      and all: "\<forall>j<length rl. rl ! j = result (name (cands ! j)) Down (down_status (cands ! j))"
      and att: "attempts_down cands 0 db = Inr ld" by simp_all
    have "rl = finished_results Down cands"
      using lrl all by (intro nth_equalityI) (simp_all add: finished_results_def)
    with md Inr att show ?thesis by simp
  next
    case (Inl x)
    with L obtain k e rl where
      x: "x = MigrationResultSetError \<lparr>error = e, results = Some rl\<rparr>"
      and lrl: "length rl = length cands" and k: "k < length rl"
      and ek: "rl ! k = result (name (cands ! k)) Down Error"
      and before: "\<forall>j<k. rl ! j = result (name (cands ! j)) Down (down_status (cands ! j))"
      and after: "\<forall>j. k < j \<and> j < length rl \<longrightarrow> rl ! j = result (name (cands ! j)) Down NotExecuted"
      and att: "attempts_down cands 0 db = Inl (k, e, ld)"
      by auto
    have kc: "k < length cands" using k lrl by simp
    have "rl = stopped_results Down cands k"
    proof (rule nth_equalityI)
      show "length rl = length (stopped_results Down cands k)"
        using lrl kc by (simp add: length_stopped_results)
      fix j assume "j < length rl"
      then have j: "j < length cands" using lrl by simp
      consider "j < k" | "j = k" | "k < j" by linarith
      then show "rl ! j = stopped_results Down cands k ! j"
      proof cases
        case 1
        with before j kc show ?thesis by (simp add: nth_stopped_results)
      next
        case 2
        with ek j kc show ?thesis by (simp add: nth_stopped_results)
      next
        case 3
        with after j kc lrl show ?thesis by (simp add: nth_stopped_results)
      qed
    qed
    with md Inl x att show ?thesis by simp
  qed
qed

lemma down_attempt_no_down:
  "down m = None \<Longrightarrow> down_attempt m db = (Inr (), db)"
  by (simp add: down_attempt_def)

lemma attempts_down_throws_has_down:
  "attempts_down cands i db = Inl (k, e, db') \<Longrightarrow> down (cands ! (k - i)) \<noteq> None"
proof (induction cands arbitrary: i db)
  case Nil
  then show ?case by simp
next
  case (Cons m ms)
  obtain r d where a: "down_attempt m db = (r, d)" by (cases "down_attempt m db")
  show ?case
  proof (cases r)
    case (Inl x)
    with Cons.prems a have "k = i" by simp
    moreover from a Inl have "down m \<noteq> None"
      by (cases "down m") (auto simp: down_attempt_def)
    ultimately show ?thesis by simp
  next
    case (Inr u)
    with Cons.prems a have rest: "attempts_down ms (Suc i) d = Inl (k, e, db')" by simp
    from attempts_down_index [OF rest] have "Suc i \<le> k" by simp
    then have "k - i = Suc (k - Suc i)" by simp
    with Cons.IH [OF rest] show ?thesis by simp
  qed
qed

subsection \<open>\<open>run\<close>\<close>

lemma run_eq:
  assumes "selected_batch props getDS db = Some (d, cands)"
  shows "run props clock getDS db =
     (case attempts d clock cands db of
        Inr db' \<Rightarrow> (Inr \<lparr>error = None, results = Some (finished_results d cands)\<rparr>, db')
      | Inl (k, e, db') \<Rightarrow>
          (Inl (MigrationResultSetError
             \<lparr>error = e, results = Some (stopped_results d cands k)\<rparr>), db'))"
proof -
  from assms obtain state where gs: "getState props db = Inr state"
    by (cases "getState props db") (auto simp: selected_batch_def)
  from assms gs have ne: "length (migrations state) \<noteq> 0"
    by (auto simp: selected_batch_def split: if_splits)
  obtain dir step where ds: "getDS state = (dir, step)" by (cases "getDS state")
  from assms gs ne ds have pos: "\<not> step_le_zero step"
    by (auto simp: selected_batch_def split: if_splits)
  show ?thesis
  proof (cases dir)
    case Up
    with assms gs ne ds pos have d: "d = Up"
      and c: "cands = slice0 step (pendingMigrations state)"
      by (simp_all add: selected_batch_def)
    have r: "run props clock getDS db = migrateUp clock state step db"
      using gs ne ds pos Up by (simp add: run_def)
    show ?thesis unfolding r d attempts.simps by (rule migrateUp_eq [OF c])
  next
    case Down
    with assms gs ne ds pos have d: "d = Down"
      and c: "those (migrationsToRollback state step) = Some cands"
      by (auto simp: selected_batch_def)
    have r: "run props clock getDS db = migrateDown state step db"
      using gs ne ds pos Down by (simp add: run_def)
    show ?thesis unfolding r d attempts.simps by (rule migrateDown_eq [OF c])
  qed
qed

lemma run_no_batch:
  assumes "selected_batch props getDS db = None"
  shows "(\<exists>e. run props clock getDS db = (Inl (Plain e), db)) \<or>
         run props clock getDS db = (Inr \<lparr>error = None, results = Some []\<rparr>, db)"
proof (cases "getState props db")
  case (Inl e)
  then show ?thesis by (simp add: run_def)
next
  case (Inr state)
  obtain dir step where ds: "getDS state = (dir, step)" by (cases "getDS state")
  show ?thesis
  proof (cases "length (migrations state) = 0 \<or> step_le_zero step")
    case True
    with Inr ds show ?thesis by (auto simp: run_def)
  next
    case False
    with assms Inr ds have "dir = Down" "those (migrationsToRollback state step) = None"
      by (cases dir; simp add: selected_batch_def)+
    with Inr ds False show ?thesis by (simp add: run_def migrateDown_def)
  qed
qed

lemma run_returns:
  assumes "run props clock getDS db = (Inr rset, db')"
  shows "error rset = None \<and> (\<exists>rl. results rset = Some rl \<and> list_all (\<lambda>r. status r \<noteq> Error) rl)"
proof (cases "selected_batch props getDS db")
  case None
  from run_no_batch [OF None, of clock] assms show ?thesis by auto
next
  case (Some b)
  obtain d cands where b: "b = (d, cands)" by (cases b)
  from run_eq [OF Some [unfolded b], of clock] assms
  have "error rset = None \<and> results rset = Some (finished_results d cands)"
    by (auto split: sum.splits prod.splits)
  then show ?thesis using finished_results_no_Error [of d cands] by simp
qed

lemma run_throws:
  assumes "run props clock getDS db = (Inl x, db')"
  shows "(\<exists>e. x = Plain e \<and> db' = db) \<or>
         (\<exists>e rl k. x = MigrationResultSetError \<lparr>error = e, results = Some rl\<rparr> \<and>
            aborted_at rl k)"
proof (cases "selected_batch props getDS db")
  case None
  from run_no_batch [OF None, of clock] assms show ?thesis by auto
next
  case (Some b)
  obtain d cands where b: "b = (d, cands)" by (cases b)
  from run_eq [OF Some [unfolded b], of clock] assms
  obtain k e where att: "attempts d clock cands db = Inl (k, e, db')"
    and x: "x = MigrationResultSetError \<lparr>error = e, results = Some (stopped_results d cands k)\<rparr>"
    by (auto split: sum.splits prod.splits)
  from attempts_index [OF att] have "aborted_at (stopped_results d cands k) k"
    by (rule aborted_at_stopped_results)
  with x show ?thesis by blast
qed

lemma aborted_atD:
  assumes "aborted_at rl k"
  shows "k < length rl" "status (rl ! k) = Error"
    and "\<And>j. j < k \<Longrightarrow> status (rl ! j) \<noteq> Error"
    and "\<And>j. k < j \<Longrightarrow> j < length rl \<Longrightarrow> status (rl ! j) = NotExecuted"
proof -
  from assms show k: "k < length rl" and "status (rl ! k) = Error"
    by (simp_all add: aborted_at_def)
  fix j
  from assms have t: "list_all (\<lambda>r. status r \<noteq> Error) (take k rl)"
    and d: "list_all (\<lambda>r. status r = NotExecuted) (drop (Suc k) rl)"
    by (simp_all add: aborted_at_def)
  show "status (rl ! j) \<noteq> Error" if "j < k"
    using t that k by (auto simp: list_all_length)
  show "status (rl ! j) = NotExecuted" if "k < j" "j < length rl"
  proof -
    from that obtain t where "j = Suc k + t" using less_iff_Suc_add by auto
    with d that show ?thesis by (auto simp: list_all_length)
  qed
qed

lemma aborted_at_one_Error:
  assumes "aborted_at rl k"
  shows "length (filter (\<lambda>r. status r = Error) rl) = 1"
proof -
  note D = aborted_atD [OF assms]
  have split: "rl = take k rl @ rl ! k # drop (Suc k) rl"
    using D(1) by (simp add: id_take_nth_drop)
  have a: "filter (\<lambda>r. status r = Error) (take k rl) = []"
    using assms by (auto simp: aborted_at_def filter_empty_conv list_all_iff)
  have b: "filter (\<lambda>r. status r = Error) (drop (Suc k) rl) = []"
    using assms by (auto simp: aborted_at_def filter_empty_conv list_all_iff)
  have "filter (\<lambda>r. status r = Error) rl =
      filter (\<lambda>r. status r = Error) (take k rl @ rl ! k # drop (Suc k) rl)"
    using split by simp
  also have "\<dots> = [rl ! k]" using a b D(2) by simp
  finally show ?thesis by simp
qed

lemma no_Error_filter:
  "list_all (\<lambda>r. status r \<noteq> Error) rl \<Longrightarrow> filter (\<lambda>r. status r = Error) rl = []"
  by (auto simp: filter_empty_conv list_all_iff)

lemma aborted_at_after_Error:
  assumes "aborted_at rl k" "i < j" "j < length rl" "status (rl ! i) = Error"
  shows "status (rl ! j) = NotExecuted"
proof -
  note D = aborted_atD [OF assms(1)]
  have "i = k"
  proof (rule ccontr)
    assume "i \<noteq> k"
    then consider "i < k" | "k < i" by linarith
    then show False
    proof cases
      case 1
      with D(3) assms(4) show False by blast
    next
      case 2
      with D(4) [of i] assms have "status (rl ! i) = NotExecuted" by simp
      with assms(4) show False by simp
    qed
  qed
  with D(4) [of j] assms show ?thesis by simp
qed

subsection \<open>The table bootstrap and the transaction wrapper\<close>

lemma ensureMigrationTablesExists_refused:
  "CreateTable \<in> refuses db \<Longrightarrow>
   ensureMigrationTablesExists db =
     (Inl (Plain (Some (SqliteError (Refused CreateTable)))), db)"
  by (simp add: ensureMigrationTablesExists_def ensureMigrationTableExists_def
      exec_create_table_def refused_def)

lemma ensureMigrationTablesExists_accepted:
  "CreateTable \<notin> refuses db \<Longrightarrow>
   ensureMigrationTablesExists db = (Inr (), db\<lparr>log_table := Some (log_rows db)\<rparr>)"
  by (cases "log_table db")
     (simp_all add: ensureMigrationTablesExists_def ensureMigrationTableExists_def
        exec_create_table_def log_rows_def)


lemma ensureMigrationTablesExists_Inl:
  assumes "ensureMigrationTablesExists db = (Inl x, db1)"
  shows "x = Plain (Some (SqliteError (Refused CreateTable)))" and "db1 = db"
  using assms ensureMigrationTablesExists_refused [of db]
    ensureMigrationTablesExists_accepted [of db]
  by (cases "CreateTable \<in> refuses db"; simp)+

text \<open>The mark \<open>before\<close> leaves on the connection.\<close>

lemma before_Inr:
  assumes "before (inTransaction db) db = (Inr u, d0)"
  shows "d0 = db\<lparr>open_transaction :=
           ((if inTransaction db then Named wrapper_savepoint else Begun), contents db) #
           open_transaction db\<rparr>"
  using assms
  by (auto simp: before_def exec_begin_def exec_savepoint_def refused_def inTransaction_def
      split: if_splits)

lemma before_Inl:
  assumes "before (inTransaction db) db = (Inl e, d0)"
  shows "d0 = db"
  using assms
  by (auto simp: before_def exec_begin_def exec_savepoint_def refused_def inTransaction_def
      split: if_splits)

lemma before_accepted:
  assumes "refuses db \<inter> {Begin, Savepoint} = {}"
  shows "\<exists>d0. before (inTransaction db) db = (Inr (), d0)"
  using assms
  by (auto simp: before_def exec_begin_def exec_savepoint_def refused_def inTransaction_def)

lemma transaction_catch_throws:
  "\<exists>y d. transaction_catch nested x db = ((Inl y :: exn + 'r), d) \<and>
     (y = x \<or> (\<exists>e. y = Plain e))"
  by (auto simp: transaction_catch_def split: prod.splits sum.splits)

text \<open>
  The \<open>catch\<close> block of the wrapper on a connection that is in the transaction the
  wrapper opened, when the driver accepts the statements that undo it: the contents are
  those at the mark, the connection is where it was before the wrapper, and the caught
  value is thrown again.
\<close>

lemma transaction_catch_rolls_back:
  assumes "open_transaction dk =
      ((if inTransaction db then Named wrapper_savepoint else Begun), c) # open_transaction db"
    and "refuses dk \<inter> {Rollback, RollbackTo, Release} = {}"
  shows "transaction_catch (inTransaction db) x dk =
           (Inl x, (restore c dk)\<lparr>open_transaction := open_transaction db\<rparr>)"
proof (cases "inTransaction db")
  case True
  with assms show ?thesis
    by (simp add: transaction_catch_def undo_def after_def exec_rollback_to_def
        exec_release_def inTransaction_def restore_def)
next
  case False
  with assms show ?thesis
    by (simp add: transaction_catch_def undo_def after_def exec_rollback_def
        inTransaction_def restore_def)
qed

lemma after_commits:
  assumes "open_transaction d1 =
      ((if inTransaction db then Named wrapper_savepoint else Begun), c) # open_transaction db"
    and "refuses d1 \<inter> {Commit, Release} = {}"
  shows "after (inTransaction db) d1 = (Inr (), d1\<lparr>open_transaction := open_transaction db\<rparr>)"
proof (cases "inTransaction db")
  case True
  with assms show ?thesis
    by (simp add: after_def exec_release_def)
next
  case False
  with assms show ?thesis
    by (simp add: after_def exec_commit_def inTransaction_def)
qed


lemma transaction_rolled_back:
  assumes b: "before (inTransaction db) db = (Inr u, d0)"
    and f: "f d0 = (Inl x, dk)"
    and o: "open_transaction dk = open_transaction d0"
    and r: "refuses dk \<inter> {Rollback, RollbackTo, Release} = {}"
  shows "transaction f db =
           (Inl x, (restore (contents db) dk)\<lparr>open_transaction := open_transaction db\<rparr>)"
proof -
  from before_Inr [OF b] o have "open_transaction dk =
      ((if inTransaction db then Named wrapper_savepoint else Begun), contents db) #
      open_transaction db" by simp
  from transaction_catch_rolls_back [OF this r, of x]
  show ?thesis using b f by (simp add: transaction_def)
qed

lemma transaction_committed:
  assumes b: "before (inTransaction db) db = (Inr u, d0)"
    and f: "f d0 = (Inr res, d1)"
    and o: "open_transaction d1 = open_transaction d0"
    and r: "refuses d1 \<inter> {Commit, Release} = {}"
  shows "transaction f db = (Inr res, d1\<lparr>open_transaction := open_transaction db\<rparr>)"
proof -
  from before_Inr [OF b] o have "open_transaction d1 =
      ((if inTransaction db then Named wrapper_savepoint else Begun), contents db) #
      open_transaction db" by simp
  from after_commits [OF this r]
  show ?thesis using b f by (simp add: transaction_def)
qed

text \<open>A body that only reads: the wrapper hands its outcome on and leaves the database.\<close>

lemma transaction_of_reader:
  assumes b: "before (inTransaction db) db = (Inr u, d0)"
    and f: "f d0 = (out, d0)"
    and r: "refuses db \<inter> {Commit, Release, Rollback, RollbackTo} = {}"
  shows "transaction f db = (out, db)"
proof -
  note d0 = before_Inr [OF b]
  have rf: "refuses d0 = refuses db" by (subst d0) simp
  have undone: "d0\<lparr>open_transaction := open_transaction db\<rparr> = db" by (subst d0) simp
  have restored: "(restore (contents db) d0)\<lparr>open_transaction := open_transaction db\<rparr> = db"
    by (subst d0) (simp add: restore_def contents_def)
  show ?thesis
  proof (cases out)
    case (Inl x)
    have "refuses d0 \<inter> {Rollback, RollbackTo, Release} = {}" using r rf by auto
    from transaction_rolled_back [where f = f, OF b f [unfolded Inl] refl this] restored Inl
    show ?thesis by simp
  next
    case (Inr res)
    have "refuses d0 \<inter> {Commit, Release} = {}" using r rf by auto
    from transaction_committed [where f = f, OF b f [unfolded Inr] refl this] undone Inr
    show ?thesis by simp
  qed
qed

text \<open>Whatever the wrapper returns was returned by its body, followed by \<open>after\<close>.\<close>

lemma transaction_Inr:
  fixes f :: "'u Database \<Rightarrow> (exn + 'r) \<times> 'u Database"
  assumes "transaction f db = (Inr res, db')"
  shows "\<exists>u d0 d1 u'. before (inTransaction db) db = (Inr u, d0) \<and> f d0 = (Inr res, d1) \<and>
           after (inTransaction db) d1 = (Inr u', db')"
proof -
  have nc: "transaction_catch nested x d \<noteq> (Inr res, db')" for nested x d
    using transaction_catch_throws [of nested x d, where 'r = 'r] by auto
  obtain o0 d0 where b: "before (inTransaction db) db = (o0, d0)"
    by (cases "before (inTransaction db) db")
  obtain o1 d1 where f: "f d0 = (o1, d1)" by (cases "f d0")
  obtain o2 d2 where a: "after (inTransaction db) d1 = (o2, d2)"
    by (cases "after (inTransaction db) d1")
  show ?thesis
  proof (cases o0)
    case (Inl e)
    with assms b nc [of "inTransaction db" "Plain e" d0] show ?thesis
      by (simp add: transaction_def)
  next
    case b0: (Inr u)
    show ?thesis
    proof (cases o1)
      case (Inl y)
      with assms b b0 f nc [of "inTransaction db" y d1] show ?thesis
        by (simp add: transaction_def)
    next
      case f0: (Inr res')
      show ?thesis
      proof (cases o2)
        case (Inl e)
        with assms b b0 f f0 a nc [of "inTransaction db" "Plain e" d2] show ?thesis
          by (simp add: transaction_def)
      next
        case (Inr u')
        with assms b b0 f f0 a show ?thesis by (simp add: transaction_def)
      qed
    qed
  qed
qed

lemma transaction_Inl:
  fixes f :: "'u Database \<Rightarrow> (exn + 'r) \<times> 'u Database"
  assumes "transaction f db = (Inl x, db')"
  shows "(\<exists>e. x = Plain e) \<or> (\<exists>d0 d1. f d0 = (Inl x, d1))"
proof -
  obtain o0 d0 where b: "before (inTransaction db) db = (o0, d0)"
    by (cases "before (inTransaction db) db")
  obtain o1 d1 where f: "f d0 = (o1, d1)" by (cases "f d0")
  obtain o2 d2 where a: "after (inTransaction db) d1 = (o2, d2)"
    by (cases "after (inTransaction db) d1")
  show ?thesis
  proof (cases o0)
    case (Inl e)
    with assms b transaction_catch_throws [of "inTransaction db" "Plain e" d0, where 'r = 'r]
    show ?thesis by (auto simp: transaction_def)
  next
    case b0: (Inr u)
    show ?thesis
    proof (cases o1)
      case (Inl y)
      with assms b b0 f transaction_catch_throws [of "inTransaction db" y d1, where 'r = 'r]
      show ?thesis by (auto simp: transaction_def)
    next
      case f0: (Inr res)
      show ?thesis
      proof (cases o2)
        case (Inl e)
        with assms b b0 f f0 a
          transaction_catch_throws [of "inTransaction db" "Plain e" d2, where 'r = 'r]
        show ?thesis by (auto simp: transaction_def)
      next
        case (Inr u')
        with assms b b0 f f0 a show ?thesis by (simp add: transaction_def)
      qed
    qed
  qed
qed

subsection \<open>\<open>migrate\<close>\<close>

lemma migrate_bootstrap_throws:
  assumes "ensureMigrationTablesExists db = (Inl x, db1)"
  shows "migrate props clock getDS db = (Inr (migrate_catch x), db1)"
  using assms by (simp add: migrate_def)

lemma migrate_batch_throws:
  assumes "ensureMigrationTablesExists db = (Inr u, db1)"
    and "runMigrations props clock getDS db1 = (Inl x, db2)"
  shows "migrate props clock getDS db = (Inr (migrate_catch x), db2)"
  using assms by (simp add: migrate_def)

lemma migrate_batch_returns:
  assumes "ensureMigrationTablesExists db = (Inr u, db1)"
    and "runMigrations props clock getDS db1 = (Inr rset, db2)"
  shows "migrate props clock getDS db = (Inr rset, db2)"
  using assms by (simp add: migrate_def)

lemma migrate_never_throws:
  "\<exists>rset db'. migrate props clock getDS db = (Inr rset, db')"
  by (auto simp: migrate_def split: prod.splits sum.splits)

text \<open>The three ways in which \<open>migrate\<close> comes by the result set it returns.\<close>

lemma migrate_cases:
  assumes "migrate props clock getDS db = (Inr rset, db')"
  shows "(\<exists>u db1 u' d0 d1 u''. ensureMigrationTablesExists db = (Inr u, db1) \<and>
            before (inTransaction db1) db1 = (Inr u', d0) \<and>
            run props clock getDS d0 = (Inr rset, d1) \<and>
            after (inTransaction db1) d1 = (Inr u'', db')) \<or>
         (\<exists>e. rset = \<lparr>error = e, results = None\<rparr>) \<or>
         (\<exists>e rl k. rset = \<lparr>error = e, results = Some rl\<rparr> \<and> aborted_at rl k)"
proof -
  obtain o1 db1 where boot: "ensureMigrationTablesExists db = (o1, db1)"
    by (cases "ensureMigrationTablesExists db")
  show ?thesis
  proof (cases o1)
    case (Inl x)
    from ensureMigrationTablesExists_Inl [OF boot [unfolded Inl]]
      migrate_bootstrap_throws [OF boot [unfolded Inl], of props clock getDS] assms
    show ?thesis by auto
  next
    case (Inr u)
    obtain o2 db2 where rm: "runMigrations props clock getDS db1 = (o2, db2)"
      by (cases "runMigrations props clock getDS db1")
    show ?thesis
    proof (cases o2)
      case r: (Inr rs)
      from migrate_batch_returns [OF boot [unfolded Inr] rm [unfolded r]] assms
      have eq: "rs = rset" "db2 = db'" by simp_all
      from transaction_Inr [OF rm [unfolded r runMigrations_def]] eq boot Inr
      show ?thesis by blast
    next
      case l: (Inl x)
      from migrate_batch_throws [OF boot [unfolded Inr] rm [unfolded l]] assms
      have rs: "rset = migrate_catch x" by simp
      from transaction_Inl [OF rm [unfolded l runMigrations_def]]
      consider e where "x = Plain e"
        | d0 d1 where "run props clock getDS d0 = (Inl x, d1)" by blast
      then show ?thesis
      proof cases
        case 1
        with rs show ?thesis by simp
      next
        case 2
        from run_throws [OF 2] rs show ?thesis by auto
      qed
    qed
  qed
qed

lemma migrate_results:
  assumes "migrate props clock getDS db = (Inr rset, db')" and "results rset = Some rl"
  shows "(error rset = None \<and> list_all (\<lambda>r. status r \<noteq> Error) rl) \<or> (\<exists>k. aborted_at rl k)"
proof -
  from migrate_cases [OF assms(1)]
  consider (ret) d0 d1 where "run props clock getDS d0 = (Inr rset, d1)"
    | (plain) e where "rset = \<lparr>error = e, results = None\<rparr>"
    | (stopped) e rl' k where "rset = \<lparr>error = e, results = Some rl'\<rparr>" "aborted_at rl' k"
    by blast
  then show ?thesis
  proof cases
    case ret
    from run_returns [OF ret] assms(2) show ?thesis by auto
  next
    case plain
    with assms(2) show ?thesis by simp
  next
    case stopped
    with assms(2) show ?thesis by auto
  qed
qed

text \<open>
  A batch in which candidate \<open>k\<close> throws, seen from \<open>migrate\<close>: the wrapper's \<open>catch\<close>
  block receives the result set that the batch throws, on the database that candidate
  left.
\<close>

lemma migrate_stopped_batch:
  assumes boot: "ensureMigrationTablesExists db = (Inr u, db1)"
    and bef: "before (inTransaction db1) db1 = (Inr u', db2)"
    and sel: "selected_batch props getDS db2 = Some (dir, cands)"
    and att: "attempts dir clock cands db2 = Inl (k, e, dbk)"
    and tc: "transaction_catch (inTransaction db1)
               (MigrationResultSetError
                  \<lparr>error = e, results = Some (stopped_results dir cands k)\<rparr>) dbk =
             ((Inl y :: exn + MigrationResultSet), db')"
  shows "migrate props clock getDS db = (Inr (migrate_catch y), db')"
proof -
  from run_eq [OF sel, of clock] att
  have "run props clock getDS db2 =
      (Inl (MigrationResultSetError
         \<lparr>error = e, results = Some (stopped_results dir cands k)\<rparr>), dbk)"
    by simp
  with bef tc have "runMigrations props clock getDS db1 = (Inl y, db')"
    by (simp add: runMigrations_def transaction_def)
  from migrate_batch_throws [OF boot this] show ?thesis .
qed

subsection \<open>What state resolution returns and throws\<close>

lemma name_with_name [simp]: "name (with_name m n) = n"
  by (simp add: with_name_def)

lemma set_js_sort [simp]: "set (js_sort xs) = set xs"
  by (simp add: js_sort_def)

lemma distinct_js_sort [simp]: "distinct (js_sort xs) = distinct xs"
  by (simp add: js_sort_def)

lemma sorted_js_sort: "sorted (map utf16_units (js_sort xs))"
  by (simp add: js_sort_def)

lemma resolveMigrations_names:
  assumes "resolveMigrations props = Inr migs"
  shows "\<exists>allMigrations. provider props = Inr allMigrations \<and>
           map name migs = js_sort (remdups (map fst allMigrations))"
  using assms
  by (cases "provider props") (auto simp: resolveMigrations_def comp_def)


lemma ensureNoMissingMigrations_Inr_iff:
  "ensureNoMissingMigrations migs executed = Inr u \<longleftrightarrow> set executed \<subseteq> name ` set migs"
  by (induction executed) (auto simp: list_ex_iff)

lemma ensureNoMissingMigrations_Inl:
  "ensureNoMissingMigrations migs executed = Inl e \<Longrightarrow>
     \<exists>n\<in>set executed. n \<notin> name ` set migs \<and> e = Some (MissingMigration n)"
  by (induction executed) (auto simp: list_ex_iff split: if_splits)

lemma ensureMigrationsInOrder_loop_Inr_iff:
  "ensureMigrationsInOrder_loop migs executed i = Inr u \<longleftrightarrow>
     (\<forall>j. i \<le> j \<and> j < length executed \<longrightarrow> j < length migs \<and> name (migs ! j) = executed ! j)"
proof (induction migs executed i rule: ensureMigrationsInOrder_loop.induct)
  case (1 migs executed i)
  show ?case
  proof (cases "i < length executed")
    case False
    then show ?thesis by (subst ensureMigrationsInOrder_loop.simps) auto
  next
    case True
    show ?thesis
    proof (cases "i < length migs")
      case False
      with True show ?thesis
        by (subst ensureMigrationsInOrder_loop.simps) (auto simp: at_def)
    next
      case lt: True
      show ?thesis
      proof (cases "name (migs ! i) = executed ! i")
        case False
        with True lt show ?thesis
          by (subst ensureMigrationsInOrder_loop.simps) (auto simp: at_def)
      next
        case eq: True
        have "ensureMigrationsInOrder_loop migs executed i =
              ensureMigrationsInOrder_loop migs executed (i + 1)"
          using True lt eq by (subst ensureMigrationsInOrder_loop.simps) (simp add: at_def)
        also have "\<dots> = Inr u \<longleftrightarrow>
          (\<forall>j. i + 1 \<le> j \<and> j < length executed \<longrightarrow>
             j < length migs \<and> name (migs ! j) = executed ! j)"
          using "1.IH" [OF True at_Some [OF lt]] eq by simp
        also have "\<dots> \<longleftrightarrow>
          (\<forall>j. i \<le> j \<and> j < length executed \<longrightarrow>
             j < length migs \<and> name (migs ! j) = executed ! j)"
          using lt eq by (metis Suc_eq_plus1 Suc_leI le_neq_implies_less less_eq_Suc_le order_less_imp_le)
        finally show ?thesis .
      qed
    qed
  qed
qed

lemma ensureMigrationsInOrder_loop_Inl:
  "ensureMigrationsInOrder_loop migs executed i = Inl e \<Longrightarrow>
     (e = Some TypeError \<and> length migs < length executed) \<or>
     (\<exists>k. i \<le> k \<and> k < length executed \<and> k < length migs \<and> name (migs ! k) \<noteq> executed ! k \<and>
          e = Some (OutOfOrder (executed ! k) k (name (migs ! k))))"
proof (induction migs executed i rule: ensureMigrationsInOrder_loop.induct)
  case (1 migs executed i)
  from "1.prems" have True: "i < length executed"
    by (subst (asm) ensureMigrationsInOrder_loop.simps) (simp split: if_splits)
  show ?case
  proof (cases "i < length migs")
    case False
    with True "1.prems" show ?thesis
      by (subst (asm) ensureMigrationsInOrder_loop.simps) (auto simp: at_def)
  next
    case lt: True
    show ?thesis
    proof (cases "name (migs ! i) = executed ! i")
      case False
      with True lt "1.prems" have "e = Some (OutOfOrder (executed ! i) i (name (migs ! i)))"
        by (subst (asm) ensureMigrationsInOrder_loop.simps) (auto simp: at_def)
      with True lt False show ?thesis by blast
    next
      case eq: True
      have "ensureMigrationsInOrder_loop migs executed (i + 1) = Inl e"
        using True lt eq "1.prems"
        by (subst (asm) ensureMigrationsInOrder_loop.simps) (simp add: at_def)
      from "1.IH" [OF True at_Some [OF lt] _ this] eq show ?thesis
        by (auto intro: Suc_leD)
    qed
  qed
qed

lemma in_order_iff_prefix:
  "(\<forall>j. j < length executed \<longrightarrow> j < length migs \<and> name (migs ! j) = executed ! j) \<longleftrightarrow>
   take (length executed) (map name migs) = executed"
proof
  assume a: "\<forall>j. j < length executed \<longrightarrow> j < length migs \<and> name (migs ! j) = executed ! j"
  have "length executed \<le> length migs"
  proof (rule ccontr)
    assume "\<not> length executed \<le> length migs"
    then have "length migs < length executed" by simp
    with a show False by blast
  qed
  with a show "take (length executed) (map name migs) = executed"
    by (intro nth_equalityI) simp_all
next
  assume e: "take (length executed) (map name migs) = executed"
  then have "length (take (length executed) (map name migs)) = length executed" by simp
  then have le: "length executed \<le> length migs" by simp
  show "\<forall>j. j < length executed \<longrightarrow> j < length migs \<and> name (migs ! j) = executed ! j"
  proof (intro allI impI)
    fix j assume j: "j < length executed"
    then have "take (length executed) (map name migs) ! j = name (migs ! j)"
      using le by simp
    with e j le show "j < length migs \<and> name (migs ! j) = executed ! j" by simp
  qed
qed

lemma ensureMigrationsInOrder_Inr_iff:
  "ensureMigrationsInOrder migs executed = Inr u \<longleftrightarrow>
     take (length executed) (map name migs) = executed"
  unfolding ensureMigrationsInOrder_def ensureMigrationsInOrder_loop_Inr_iff
  using in_order_iff_prefix [of executed migs] by simp

lemma ensureMigrationsInOrder_Inl:
  assumes "ensureMigrationsInOrder migs executed = Inl e"
    and "length executed \<le> length migs"
  shows "\<exists>c. e = Some c \<and> is_corrupted c"
  using ensureMigrationsInOrder_loop_Inl [OF assms(1) [unfolded ensureMigrationsInOrder_def]]
    assms(2) by auto

lemma getState_Inr:
  assumes "getState props db = Inr state"
  shows "\<exists>allMigrations rows.
      provider props = Inr allMigrations \<and> log_table db = Some rows \<and>
      SelectNames \<notin> refuses db \<and>
      map name (migrations state) = js_sort (remdups (map fst allMigrations)) \<and>
      executedMigrations state = map fst (sort_key order_key rows) \<and>
      set (executedMigrations state) \<subseteq> name ` set (migrations state) \<and>
      (allowUnordered props \<or>
         take (length (executedMigrations state)) (map name (migrations state)) =
           executedMigrations state) \<and>
      pendingMigrations state =
        getPendingMigrations (migrations state) (executedMigrations state) \<and>
      lastMigration state =
        (if executedMigrations state = [] then None else Some (last (executedMigrations state)))"
proof -
  from assms obtain migs where rm: "resolveMigrations props = Inr migs"
    by (auto simp: getState_def split: sum.splits)
  from assms rm obtain executed where ge: "getExecutedMigrations db = Inr executed"
    by (auto simp: getState_def split: sum.splits)
  from assms rm ge obtain u where nm: "ensureNoMissingMigrations migs executed = Inr u"
    by (auto simp: getState_def split: sum.splits)
  from assms rm ge nm
  have ord: "allowUnordered props \<or> (\<exists>u. ensureMigrationsInOrder migs executed = Inr u)"
    by (auto simp: getState_def split: sum.splits if_splits)
  from assms rm ge nm have st: "state =
      \<lparr>migrations = migs, executedMigrations = executed,
       lastMigration = (if executed = [] then None else Some (last executed)),
       pendingMigrations = getPendingMigrations migs executed\<rparr>"
    by (auto simp: getState_def split: sum.splits if_splits)
  from ge obtain rows where rows: "log_table db = Some rows"
    and sel: "SelectNames \<notin> refuses db"
    and ex: "executed = map fst (sort_key order_key rows)"
    by (auto simp: getExecutedMigrations_def query_names_def split: option.splits if_splits)
  from resolveMigrations_names [OF rm] obtain allMigrations where
    "provider props = Inr allMigrations"
    "map name migs = js_sort (remdups (map fst allMigrations))"
    by blast
  moreover from nm have "set executed \<subseteq> name ` set migs"
    by (simp add: ensureNoMissingMigrations_Inr_iff)
  moreover from ord have "allowUnordered props \<or> take (length executed) (map name migs) = executed"
    by (auto simp: ensureMigrationsInOrder_Inr_iff)
  ultimately show ?thesis using rows sel ex st by simp
qed

text \<open>\<open>getState\<close> reads the log table and nothing else of the database.\<close>

lemma getState_cong:
  assumes "log_table d = log_table db" and "SelectNames \<in> refuses d \<longleftrightarrow> SelectNames \<in> refuses db"
  shows "getState props d = getState props db"
proof -
  have same: "getExecutedMigrations d = getExecutedMigrations db"
    using assms by (simp add: getExecutedMigrations_def query_names_def)
  show ?thesis unfolding getState_def same by (rule refl)
qed

lemma selected_batch_cong:
  assumes "log_table d = log_table db" and "SelectNames \<in> refuses d \<longleftrightarrow> SelectNames \<in> refuses db"
  shows "selected_batch props getDS d = selected_batch props getDS db"
  using getState_cong [OF assms] by (simp add: selected_batch_def)

lemma js_sort_three:
  "js_sort [''002_users'', ''001_init'', ''003_index''] = [''001_init'', ''002_users'', ''003_index'']"
  by code_simp


lemmas getState_eval =
  getState_def resolveMigrations_def getExecutedMigrations_def query_names_def
  allowUnordered_def DEFAULT_ALLOW_UNORDERED_MIGRATIONS_def ensureMigrationsInOrder_def
  ensureMigrationsInOrder_loop.simps at_def getPendingMigrations_def order_key_def
  three_props_def unordered_props_def three_migrations_def
  named_init_def named_users_def named_index_def database_def js_sort_three

lemma getState_shuffled: "getState unordered_props shuffled_log_db = Inr state_shuffled"
  by (simp add: getState_eval shuffled_log_db_def state_shuffled_def)

lemma getState_init: "getState three_props init_log_db = Inr state_init_executed"
  by (simp add: getState_eval init_log_db_def state_init_executed_def)

lemma those_map_the: "None \<notin> set xs \<Longrightarrow> those xs = Some (map the xs)"
proof (induction xs)
  case Nil
  show ?case by simp
next
  case (Cons a xs)
  then obtain y where "a = Some y" by (cases a) auto
  with Cons show ?case by simp
qed

lemma find_name:
  assumes "n \<in> name ` set migs"
  shows "\<exists>m. find (\<lambda>it. name it = n) migs = Some m \<and> name m = n \<and> m \<in> set migs"
proof (cases "find (\<lambda>it. name it = n) migs")
  case None
  with assms show ?thesis by (auto simp: find_None_iff)
next
  case (Some m)
  then show ?thesis by (auto simp: find_Some_iff)
qed

lemma sorted_rows_lex:
  "sorted_wrt (\<lambda>r r'. snd r < snd r' \<or> (snd r = snd r' \<and> fst r \<le> fst r'))
     (sort_key order_key rows)"
proof -
  have "sorted (map order_key (sort_key order_key rows))" by (rule sorted_sort_key)
  then have "sorted_wrt (\<lambda>r r'. order_key r \<le> order_key r') (sort_key order_key rows)"
    by (simp add: sorted_map)
  then have "sorted_wrt (\<lambda>r r'. snd r < snd r' \<or> (snd r \<le> snd r' \<and> fst r \<le> fst r'))
      (sort_key order_key rows)"
    by (simp add: order_key_def)
  then show ?thesis
    by (rule sorted_wrt_mono_rel [rotated]) auto
qed

lemma rollback_candidates:
  assumes "getState props db = Inr state"
  shows "\<exists>cands. those (migrationsToRollback state step) = Some cands \<and>
           map name cands = slice0 step (rev (executedMigrations state)) \<and>
           (\<forall>i<length cands.
              find (\<lambda>it. name it = name (cands ! i)) (migrations state) = Some (cands ! i)) \<and>
           set cands \<subseteq> set (migrations state)"
proof -
  let ?ns = "slice0 step (rev (executedMigrations state))"
  let ?f = "\<lambda>n. find (\<lambda>it. name it = n) (migrations state)"
  from getState_Inr [OF assms]
  have sub: "set (executedMigrations state) \<subseteq> name ` set (migrations state)" by blast
  have ns: "set ?ns \<subseteq> set (executedMigrations state)"
    using set_slice0 [of step "rev (executedMigrations state)"] by simp
  have found: "\<exists>m. ?f n = Some m \<and> name m = n \<and> m \<in> set (migrations state)"
    if "n \<in> set ?ns" for n
    using that ns sub find_name [of n "migrations state"] by blast
  have "None \<notin> set (map ?f ?ns)" using found by force
  then have th: "those (migrationsToRollback state step) = Some (map the (map ?f ?ns))"
    unfolding migrationsToRollback_def by (rule those_map_the)
  let ?cands = "map the (map ?f ?ns)"
  have names: "map name ?cands = ?ns"
  proof -
    have "map name ?cands = map (\<lambda>n. name (the (?f n))) ?ns" by (simp add: comp_def)
    also have "\<dots> = ?ns"
    proof (rule map_idI)
      fix n assume "n \<in> set ?ns"
      from found [OF this] show "name (the (?f n)) = n" by auto
    qed
    finally show ?thesis .
  qed
  have len: "length ?cands = length ?ns" by simp
  have each: "?f (name (?cands ! i)) = Some (?cands ! i)" if "i < length ?cands" for i
  proof -
    from that have i: "i < length ?ns" by simp
    then have "?ns ! i \<in> set ?ns" by (rule nth_mem)
    from found [OF this] obtain m where m: "?f (?ns ! i) = Some m" "name m = ?ns ! i" by blast
    have "?cands ! i = the (?f (?ns ! i))" using i by simp
    with m show ?thesis by simp
  qed
  have mem: "set ?cands \<subseteq> set (migrations state)"
  proof
    fix c assume "c \<in> set ?cands"
    then obtain n where "n \<in> set ?ns" "c = the (?f n)" by auto
    with found [of n] show "c \<in> set (migrations state)" by auto
  qed
  from th names each mem show ?thesis by blast
qed

lemma distinct_executed:
  assumes "distinct (map fst rows)"
  shows "distinct (map fst (sort_key order_key rows))"
proof -
  have "mset (map fst (sort_key order_key rows)) = mset (map fst rows)" by simp
  from mset_eq_imp_distinct_iff [OF this] assms show ?thesis by simp
qed

subsection \<open>The rows of the log during a batch\<close>

lemma down_attempt_keeps_rows:
  assumes "down_attempt m d = (r, d')"
    and "\<forall>down_op d. down m = Some down_op \<longrightarrow> log_table (snd (down_op d)) = log_table d"
    and "row \<in> set (log_rows d)"
    and "fst row \<noteq> name m \<or> down m = None"
  shows "row \<in> set (log_rows d')"
proof (cases "down m")
  case None
  with assms(1,3) show ?thesis by (simp add: down_attempt_def)
next
  case (Some down_op)
  obtain r0 d0 where op: "down_op d = (r0, d0)" by (cases "down_op d")
  with assms(2) Some have lt: "log_table d0 = log_table d" by (metis snd_conv)
  show ?thesis
  proof (cases r0)
    case (Inl e)
    with assms(1) Some op have "d' = d0" by (simp add: down_attempt_def)
    with lt assms(3) show ?thesis by (simp add: log_rows_def)
  next
    case (Inr u)
    with assms(1) Some op have del: "exec_delete (name m) d0 = (r, d')"
      by (simp add: down_attempt_def)
    from assms(4) Some have "fst row \<noteq> name m" by simp
    with del lt assms(3) show ?thesis
      by (cases "log_table d")
         (auto simp: exec_delete_def log_rows_def refused_def split: if_splits)
  qed
qed

lemma attempts_down_keeps_rows:
  assumes "\<forall>m\<in>set cs. \<forall>down_op d. down m = Some down_op \<longrightarrow>
             log_table (snd (down_op d)) = log_table d"
    and "row \<in> set (log_rows db)"
    and "fst row \<notin> name ` {m \<in> set cs. down m \<noteq> None}"
  shows "row \<in> set (log_rows (case attempts_down cs i db of
                                Inr d \<Rightarrow> d | Inl (k, e, d) \<Rightarrow> d))"
  using assms
proof (induction cs arbitrary: i db)
  case Nil
  then show ?case by simp
next
  case (Cons m ms)
  obtain r d where a: "down_attempt m db = (r, d)" by (cases "down_attempt m db")
  have pres: "\<forall>down_op d. down m = Some down_op \<longrightarrow> log_table (snd (down_op d)) = log_table d"
    using Cons.prems(1) by simp
  have ne: "fst row \<noteq> name m \<or> down m = None" using Cons.prems(3) by auto
  from down_attempt_keeps_rows [OF a pres Cons.prems(2) ne]
  have row: "row \<in> set (log_rows d)" .
  show ?case
  proof (cases r)
    case (Inl e)
    with a row show ?thesis by simp
  next
    case (Inr u)
    have "row \<in> set (log_rows (case attempts_down ms (Suc i) d of
                                Inr d \<Rightarrow> d | Inl (k, e, d) \<Rightarrow> d))"
      using Cons.prems(1,3) by (intro Cons.IH [OF _ row]) auto
    with a Inr show ?thesis by simp
  qed
qed

lemma migrateDown_keeps_rows:
  assumes "migrateDown state step db = (out, db')"
    and "those (migrationsToRollback state step) = Some cs"
    and "\<forall>m\<in>set cs. \<forall>down_op d. down m = Some down_op \<longrightarrow>
           log_table (snd (down_op d)) = log_table d"
    and "row \<in> set (log_rows db)"
    and "fst row \<notin> name ` {m \<in> set cs. down m \<noteq> None}"
  shows "row \<in> set (log_rows db')"
proof -
  from migrateDown_eq [OF assms(2), of db] assms(1)
  have "db' = (case attempts_down cs 0 db of Inr d \<Rightarrow> d | Inl (k, e, d) \<Rightarrow> d)"
    by (auto split: sum.splits prod.splits)
  with attempts_down_keeps_rows [OF assms(3,4,5), of 0] show ?thesis by simp
qed









lemma attempts_up_take:
  "attempts_up cands clock s db = Inl (k, e, d) \<Longrightarrow>
   attempts_up (take (Suc (k - s)) cands) clock s db = Inl (k, e, d)"
proof (induction cands arbitrary: s db)
  case Nil
  then show ?case by simp
next
  case (Cons m ms)
  obtain r d1 where a: "up_attempt m (clock s) db = (r, d1)"
    by (cases "up_attempt m (clock s) db")
  show ?case
  proof (cases r)
    case (Inl x)
    with Cons.prems a show ?thesis by simp
  next
    case (Inr u)
    with Cons.prems a have rest: "attempts_up ms clock (Suc s) d1 = Inl (k, e, d)" by simp
    from attempts_up_index [OF rest] have "Suc s \<le> k" by simp
    then have "k - s = Suc (k - Suc s)" by simp
    with Cons.IH [OF rest] a Inr show ?thesis by simp
  qed
qed

lemma attempts_down_take:
  "attempts_down cands s db = Inl (k, e, d) \<Longrightarrow>
   attempts_down (take (Suc (k - s)) cands) s db = Inl (k, e, d)"
proof (induction cands arbitrary: s db)
  case Nil
  then show ?case by simp
next
  case (Cons m ms)
  obtain r d1 where a: "down_attempt m db = (r, d1)" by (cases "down_attempt m db")
  show ?case
  proof (cases r)
    case (Inl x)
    with Cons.prems a show ?thesis by simp
  next
    case (Inr u)
    with Cons.prems a have rest: "attempts_down ms (Suc s) d1 = Inl (k, e, d)" by simp
    from attempts_down_index [OF rest] have "Suc s \<le> k" by simp
    then have "k - s = Suc (k - Suc s)" by simp
    with Cons.IH [OF rest] a Inr show ?thesis by simp
  qed
qed

lemma attempts_take:
  "attempts dir clock cands db = Inl (k, e, d) \<Longrightarrow>
   attempts dir clock (take (Suc k) cands) db = Inl (k, e, d)"
  using attempts_up_take [of cands clock 0 db k e d] attempts_down_take [of cands 0 db k e d]
  by (cases dir) simp_all

lemma getState_none: "getState three_props empty_log_db = Inr state_none_executed"
  by (simp add: getState_eval empty_log_db_def state_none_executed_def)

lemma getState_all: "getState three_props full_log_db = Inr state_all_executed"
  by (simp add: getState_eval full_log_db_def state_all_executed_def)

lemma getState_begun: "getState props (begun db) = getState props db"
  by (rule getState_cong) (simp_all add: begun_def)

subsection \<open>Two calls of \<open>migrateToLatest\<close>\<close>


text \<open>
  Why the operations must leave the log table alone for a second call to find nothing to
  do: an operation that empties every table removes the row of \<open>001_init\<close>, and the next
  call finds \<open>002_reset\<close> executed where it expects \<open>001_init\<close>.
\<close>

lemma second_call_fails_after_operation_emptied_log:
  "migrateToLatest reset_props noon fresh_db =
     (Inr \<lparr>error = None,
           results = Some [result ''001_init'' Up Success, result ''002_reset'' Up Success]\<rparr>,
      reset_log_db) \<and>
   migrateToLatest reset_props noon reset_log_db =
     (Inr \<lparr>error = Some (OutOfOrder ''002_reset'' 0 ''001_init''), results = None\<rparr>,
      reset_log_db)"
  by code_simp

text \<open>
  Why the names must sort alike for \<open>sort()\<close> and for the database: \<open>sort()\<close> puts U+1F600,
  whose UTF-16 code units are surrogates, before U+FF61, and the database, which compares
  the UTF-8 bytes, after it. The first call runs both in the same millisecond; the second
  reads the log in the other order.
\<close>

lemma second_call_fails_for_names_beyond_the_basic_plane:
  "migrateToLatest unicode_props noon fresh_db =
     (Inr \<lparr>error = None,
           results = Some [result grinning_face Up Success, result halfwidth_stop Up Success]\<rparr>,
      unicode_log_db) \<and>
   migrateToLatest unicode_props noon unicode_log_db =
     (Inr \<lparr>error = Some (OutOfOrder halfwidth_stop 0 grinning_face), results = None\<rparr>,
      unicode_log_db)"
  by code_simp

text \<open>
  Why the first call must report no \<open>Error\<close> entry, besides no error: an operation that
  throws \<open>undefined\<close> stops the batch and the result set has no error; the second call
  tries the migration again.
\<close>

lemma second_call_retries_after_undefined_was_thrown:
  "migrateToLatest undefined_op_props noon empty_log_db =
     (Inr \<lparr>error = None, results = Some [result ''001_init'' Up Error]\<rparr>, empty_log_db)"
  by code_simp

section \<open>The claims\<close>

text \<open>
  C5. \<open>migrateToLatest\<close> never throws: for every provider (also one that throws), every
  log, every operations and every driver (also one that refuses statements), the call
  returns a result set. The same holds for \<open>migrate\<close> with any direction and step. Its
  \<open>catch\<close> block receives every value thrown inside: when the table bootstrap throws
  \<open>x\<close>, the call returns the result set the \<open>catch\<close> block makes of \<open>x\<close>; when the bootstrap
  returns and \<open>runMigrations\<close> (the transaction around state resolution and the batch)
  throws \<open>x\<close>, likewise; and when \<open>runMigrations\<close> returns a result set, the call
  returns it.
\<close>

theorem migrateToLatest_never_throws:
  "(\<exists>resultSet db'. migrateToLatest props clock db = (Inr resultSet, db')) \<and>
   (\<exists>resultSet db'. migrate props clock getDS db = (Inr resultSet, db')) \<and>
   (\<forall>x db1. ensureMigrationTablesExists db = (Inl x, db1) \<longrightarrow>
      migrate props clock getDS db = (Inr (migrate_catch x), db1)) \<and>
   (\<forall>u db1 x db2. ensureMigrationTablesExists db = (Inr u, db1) \<and>
      runMigrations props clock getDS db1 = (Inl x, db2) \<longrightarrow>
      migrate props clock getDS db = (Inr (migrate_catch x), db2)) \<and>
   (\<forall>u db1 resultSet db2. ensureMigrationTablesExists db = (Inr u, db1) \<and>
      runMigrations props clock getDS db1 = (Inr resultSet, db2) \<longrightarrow>
      migrate props clock getDS db = (Inr resultSet, db2))"
proof (intro conjI allI impI)
  show "\<exists>resultSet db'. migrateToLatest props clock db = (Inr resultSet, db')"
    unfolding migrateToLatest_def by (rule migrate_never_throws)
  show "\<exists>resultSet db'. migrate props clock getDS db = (Inr resultSet, db')"
    by (rule migrate_never_throws)
next
  fix x db1
  assume "ensureMigrationTablesExists db = (Inl x, db1)"
  then show "migrate props clock getDS db = (Inr (migrate_catch x), db1)"
    by (rule migrate_bootstrap_throws)
next
  fix u db1 x db2
  assume "ensureMigrationTablesExists db = (Inr u, db1) \<and>
      runMigrations props clock getDS db1 = (Inl x, db2)"
  then show "migrate props clock getDS db = (Inr (migrate_catch x), db2)"
    by (auto intro: migrate_batch_throws)
next
  fix u db1 resultSet db2
  assume "ensureMigrationTablesExists db = (Inr u, db1) \<and>
      runMigrations props clock getDS db1 = (Inr resultSet, db2)"
  then show "migrate props clock getDS db = (Inr resultSet, db2)"
    by (auto intro: migrate_batch_returns)
qed

text \<open>
  A driver that refuses to create the table (a read-only database), a driver that
  refuses to begin the transaction (a locked database), and a provider that throws: each
  error comes back as the error of the result set.
\<close>

theorem migrateToLatest_never_throws_witness:
  "ensureMigrationTablesExists read_only_db =
     (Inl (Plain (Some (SqliteError (Refused CreateTable)))), read_only_db) \<and>
   migrate three_props noon (\<lambda>state. (Up, Infinity)) read_only_db =
     (Inr \<lparr>error = Some (SqliteError (Refused CreateTable)), results = None\<rparr>, read_only_db) \<and>
   ensureMigrationTablesExists locked_db = (Inr (), locked_db) \<and>
   runMigrations three_props noon (\<lambda>state. (Up, Infinity)) locked_db =
     (Inl (Plain (Some (SqliteError (Refused Begin)))), locked_db) \<and>
   migrate three_props noon (\<lambda>state. (Up, Infinity)) locked_db =
     (Inr \<lparr>error = Some (SqliteError (Refused Begin)), results = None\<rparr>, locked_db) \<and>
   migrateToLatest throwing_props noon fresh_db =
     (Inr \<lparr>error = Some (Thrown ''ENOENT''), results = None\<rparr>, empty_log_db)"
proof -
  let ?f = "\<lambda>state :: nat MigrationState. (Up, Infinity)"
  have h1: "ensureMigrationTablesExists read_only_db =
     (Inl (Plain (Some (SqliteError (Refused CreateTable)))), read_only_db)"
    by code_simp
  have h2: "ensureMigrationTablesExists locked_db = (Inr (), locked_db)"
    by code_simp
  have h3: "runMigrations three_props noon ?f locked_db =
     (Inl (Plain (Some (SqliteError (Refused Begin)))), locked_db)"
    by code_simp
  from migrateToLatest_never_throws [of three_props noon read_only_db ?f] h1
  have "migrate three_props noon ?f read_only_db =
     (Inr (migrate_catch (Plain (Some (SqliteError (Refused CreateTable))))), read_only_db)"
    by blast
  then have c1: "migrate three_props noon ?f read_only_db =
     (Inr \<lparr>error = Some (SqliteError (Refused CreateTable)), results = None\<rparr>, read_only_db)"
    by simp
  from migrateToLatest_never_throws [of three_props noon locked_db ?f] h2 h3
  have "migrate three_props noon ?f locked_db =
     (Inr (migrate_catch (Plain (Some (SqliteError (Refused Begin))))), locked_db)"
    by blast
  then have c2: "migrate three_props noon ?f locked_db =
     (Inr \<lparr>error = Some (SqliteError (Refused Begin)), results = None\<rparr>, locked_db)"
    by simp
  have c3: "migrateToLatest throwing_props noon fresh_db =
     (Inr \<lparr>error = Some (Thrown ''ENOENT''), results = None\<rparr>, empty_log_db)"
    by code_simp
  from h1 c1 h2 h3 c2 c3 show ?thesis by blast
qed

text \<open>
  C4 does not hold of the code. The \<open>catch\<close> block of \<open>migrate\<close> returns \<open>{ error }\<close> with
  the caught value as it is. When the provider's \<open>getMigrations\<close> throws \<open>undefined\<close>, the
  result set of \<open>migrateToLatest\<close> has no results list and its \<open>error\<close> is \<open>undefined\<close>:
  neither field is there for the caller, against the comment on \<open>error\<close> in
  \<open>MigrationResultSet\<close> (defined if something went wrong).
\<close>

theorem result_set_empty_after_undefined_is_thrown:
  "migrateToLatest undefined_props noon fresh_db =
     (Inr \<lparr>error = None, results = None\<rparr>, empty_log_db)"
  by code_simp




text \<open>
  C3. A batch stops at the first candidate that throws. Let the batch that \<open>run\<close> selects
  be \<open>cands\<close> and let the \<open>try\<close> block of candidate \<open>i\<close> be the first to throw, the value
  \<open>e\<close>, leaving the database \<open>dbi\<close>. Then \<open>run\<close> throws the result set whose error is \<open>e\<close>
  (whatever was thrown, also \<open>undefined\<close>) and whose results have one entry per
  candidate: entry \<open>i\<close> is \<open>Error\<close>, every entry after \<open>i\<close> is \<open>NotExecuted\<close>, and the
  entries before \<open>i\<close> keep the status they reported, which is not \<open>Error\<close>. The database
  it ends with is \<open>dbi\<close>, and the outcome is that of the batch cut off after candidate
  \<open>i\<close>: no later candidate was executed. \<open>migrate\<close> returns this very result set whenever
  the transaction wrapper throws the exception of the batch again, which it does unless
  a statement of its own rollback throws. Consequently every results list that \<open>migrate\<close>
  returns has at most one \<open>Error\<close> entry, and only \<open>NotExecuted\<close> entries after it.
\<close>

theorem first_error_aborts_batch:
  assumes "selected_batch props getDS db = Some (dir, cands)"
    and "attempts dir clock cands db = Inl (i, e, dbi)"
  shows "run props clock getDS db =
           (Inl (MigrationResultSetError
              \<lparr>error = e, results = Some (stopped_results dir cands i)\<rparr>), dbi) \<and>
         i < length cands \<and>
         length (stopped_results dir cands i) = length cands \<and>
         stopped_results dir cands i ! i = result (name (cands ! i)) dir Error \<and>
         (\<forall>j. i < j \<and> j < length cands \<longrightarrow>
            stopped_results dir cands i ! j = result (name (cands ! j)) dir NotExecuted) \<and>
         (\<forall>j<i. stopped_results dir cands i ! j =
                  result (name (cands ! j)) dir (done_status dir (cands ! j)) \<and>
                done_status dir (cands ! j) \<noteq> Error) \<and>
         attempts dir clock (take (Suc i) cands) db = Inl (i, e, dbi) \<and>
         (\<forall>db0 u db1 u' db'.
            ensureMigrationTablesExists db0 = (Inr u, db1) \<and>
            before (inTransaction db1) db1 = (Inr u', db) \<and>
            transaction_catch (inTransaction db1)
              (MigrationResultSetError
                 \<lparr>error = e, results = Some (stopped_results dir cands i)\<rparr>) dbi =
              ((Inl (MigrationResultSetError
                  \<lparr>error = e, results = Some (stopped_results dir cands i)\<rparr>)
                :: exn + MigrationResultSet), db') \<longrightarrow>
            migrate props clock getDS db0 =
              (Inr \<lparr>error = e, results = Some (stopped_results dir cands i)\<rparr>, db')) \<and>
         (\<forall>db0 resultSet db' rl.
            migrate props clock getDS db0 = (Inr resultSet, db') \<and>
            results resultSet = Some rl \<longrightarrow>
            length (filter (\<lambda>r. status r = Error) rl) \<le> 1 \<and>
            (\<forall>j k. j < k \<and> k < length rl \<and> status (rl ! j) = Error \<longrightarrow>
               status (rl ! k) = NotExecuted))"
proof -
  let ?rs = "\<lparr>error = e, results = Some (stopped_results dir cands i)\<rparr>"
  from run_eq [OF assms(1), of clock] assms(2)
  have run: "run props clock getDS db = (Inl (MigrationResultSetError ?rs), dbi)"
    by simp
  have i: "i < length cands" by (rule attempts_index [OF assms(2)])
  have shape: "length (stopped_results dir cands i) = length cands"
    "stopped_results dir cands i ! i = result (name (cands ! i)) dir Error"
    "\<forall>j. i < j \<and> j < length cands \<longrightarrow>
       stopped_results dir cands i ! j = result (name (cands ! j)) dir NotExecuted"
    "\<forall>j<i. stopped_results dir cands i ! j =
             result (name (cands ! j)) dir (done_status dir (cands ! j)) \<and>
           done_status dir (cands ! j) \<noteq> Error"
    using i by (simp_all add: length_stopped_results nth_stopped_results)
  have cut: "attempts dir clock (take (Suc i) cands) db = Inl (i, e, dbi)"
    by (rule attempts_take [OF assms(2)])
  have ret: "migrate props clock getDS db0 = (Inr ?rs, db')"
    if "ensureMigrationTablesExists db0 = (Inr u, db1) \<and>
        before (inTransaction db1) db1 = (Inr u', db) \<and>
        transaction_catch (inTransaction db1) (MigrationResultSetError ?rs) dbi =
          ((Inl (MigrationResultSetError ?rs) :: exn + MigrationResultSet), db')"
    for db0 u db1 u' db'
    using migrate_stopped_batch [where y = "MigrationResultSetError ?rs", OF _ _ assms] that
    by simp
  have all: "length (filter (\<lambda>r. status r = Error) rl) \<le> 1 \<and>
      (\<forall>j k. j < k \<and> k < length rl \<and> status (rl ! j) = Error \<longrightarrow>
         status (rl ! k) = NotExecuted)"
    if "migrate props clock getDS db0 = (Inr resultSet, db') \<and> results resultSet = Some rl"
    for db0 resultSet db' rl
  proof -
    from that migrate_results [of props clock getDS db0 resultSet db' rl]
    consider (ok) "list_all (\<lambda>r. status r \<noteq> Error) rl" | (stopped) k where "aborted_at rl k"
      by blast
    then show ?thesis
    proof cases
      case ok
      then have "\<forall>j<length rl. status (rl ! j) \<noteq> Error" by (simp add: list_all_length)
      with no_Error_filter [OF ok] show ?thesis by auto
    next
      case stopped
      from aborted_at_one_Error [OF stopped] aborted_at_after_Error [OF stopped]
      show ?thesis by auto
    qed
  qed
  from run i shape cut ret all show ?thesis by blast
qed

text \<open>
  An Up batch whose third candidate throws, with the result set \<open>migrate\<close> returns for
  it; a Down batch whose first candidate throws; and a batch whose only candidate throws
  \<open>undefined\<close>.
\<close>

theorem first_error_aborts_batch_witness:
  "selected_batch three_props (\<lambda>state. (Up, Infinity)) (begun empty_log_db) =
     Some (Up, [named_init, named_users, named_index]) \<and>
   attempts Up noon [named_init, named_users, named_index] (begun empty_log_db) =
     Inl (2, Some (Thrown ''boom''),
          (begun empty_log_db)
            \<lparr>log_table := Some [(''001_init'', ''2024-05-01T12:00:00.000Z''),
                                (''002_users'', ''2024-05-01T12:00:00.000Z'')],
             user_data := 102\<rparr>) \<and>
   run three_props noon (\<lambda>state. (Up, Infinity)) (begun empty_log_db) =
     (Inl (MigrationResultSetError three_failed),
      (begun empty_log_db)
        \<lparr>log_table := Some [(''001_init'', ''2024-05-01T12:00:00.000Z''),
                            (''002_users'', ''2024-05-01T12:00:00.000Z'')],
         user_data := 102\<rparr>) \<and>
   migrate three_props noon (\<lambda>state. (Up, Infinity)) fresh_db =
     (Inr three_failed, empty_log_db) \<and>
   selected_batch three_props (\<lambda>state. (Down, Infinity)) (begun full_log_db) =
     Some (Down, [named_index, named_users, named_init]) \<and>
   attempts Down noon [named_index, named_users, named_init] (begun full_log_db) =
     Inl (0, Some (Thrown ''boom''), (begun full_log_db)\<lparr>user_data := 103\<rparr>) \<and>
   run three_props noon (\<lambda>state. (Down, Infinity)) (begun full_log_db) =
     (Inl (MigrationResultSetError down_failed), (begun full_log_db)\<lparr>user_data := 103\<rparr>) \<and>
   migrateToLatest undefined_op_props noon empty_log_db =
     (Inr \<lparr>error = None, results = Some [result ''001_init'' Up Error]\<rparr>, empty_log_db)"
proof -
  let ?up = "\<lambda>state :: nat MigrationState. (Up, Infinity)"
  let ?down = "\<lambda>state :: nat MigrationState. (Down, Infinity)"
  let ?dbi = "(begun empty_log_db)
            \<lparr>log_table := Some [(''001_init'', ''2024-05-01T12:00:00.000Z''),
                                (''002_users'', ''2024-05-01T12:00:00.000Z'')],
             user_data := 102\<rparr>"
  have a1: "selected_batch three_props ?up (begun empty_log_db) =
      Some (Up, [named_init, named_users, named_index])"
    by (simp add: selected_batch_def getState_begun getState_none state_none_executed_def)
  have a2: "attempts Up noon [named_init, named_users, named_index] (begun empty_log_db) =
      Inl (2, Some (Thrown ''boom''), ?dbi)"
    by code_simp
  have rs: "\<lparr>error = Some (Thrown ''boom''),
             results = Some (stopped_results Up [named_init, named_users, named_index] 2)\<rparr> =
            three_failed"
    by (simp add: stopped_results_def three_failed_def named_init_def named_users_def
        named_index_def)
  note T = first_error_aborts_batch [OF a1 a2, unfolded rs]
  from T have c1: "run three_props noon ?up (begun empty_log_db) =
      (Inl (MigrationResultSetError three_failed), ?dbi)"
    by (rule conjunct1)
  have b1: "ensureMigrationTablesExists fresh_db = (Inr (), empty_log_db)"
    by code_simp
  have b2: "before (inTransaction empty_log_db) empty_log_db = (Inr (), begun empty_log_db)"
    by code_simp
  have b3: "transaction_catch (inTransaction empty_log_db)
      (MigrationResultSetError three_failed) ?dbi =
      ((Inl (MigrationResultSetError three_failed) :: exn + MigrationResultSet), empty_log_db)"
    by code_simp
  from T b1 b2 b3 have c2: "migrate three_props noon ?up fresh_db =
      (Inr three_failed, empty_log_db)"
    by blast
  have d1: "selected_batch three_props ?down (begun full_log_db) =
      Some (Down, [named_index, named_users, named_init])"
    by (simp add: selected_batch_def getState_begun getState_all state_all_executed_def
        migrationsToRollback_def named_init_def named_users_def named_index_def)
  have d2: "attempts Down noon [named_index, named_users, named_init] (begun full_log_db) =
      Inl (0, Some (Thrown ''boom''), (begun full_log_db)\<lparr>user_data := 103\<rparr>)"
    by code_simp
  have rs': "\<lparr>error = Some (Thrown ''boom''),
             results = Some (stopped_results Down [named_index, named_users, named_init] 0)\<rparr> =
            down_failed"
    by (simp add: stopped_results_def down_failed_def named_init_def named_users_def
        named_index_def)
  from first_error_aborts_batch [OF d1 d2, unfolded rs']
  have c3: "run three_props noon ?down (begun full_log_db) =
      (Inl (MigrationResultSetError down_failed), (begun full_log_db)\<lparr>user_data := 103\<rparr>)"
    by (rule conjunct1)
  have c4: "migrateToLatest undefined_op_props noon empty_log_db =
     (Inr \<lparr>error = None, results = Some [result ''001_init'' Up Error]\<rparr>, empty_log_db)"
    by code_simp
  from a1 a2 c1 c2 d1 d2 c3 c4 show ?thesis by blast
qed

text \<open>
  C9. In every state that \<open>getState\<close> returns, \<open>pendingMigrations\<close> is the list \<open>migrations\<close>
  without the entries whose name occurs in \<open>executedMigrations\<close>: it is \<open>migrations\<close>
  filtered, hence a subsequence of it in the same relative order, and its names are the
  names of \<open>migrations\<close> minus the executed ones. \<open>migrations\<close> is sorted by name in the
  order of \<open>sort()\<close>, which compares UTF-16 code units, and has no repeated names.
\<close>

theorem pending_is_migrations_minus_executed:
  assumes "getState props db = Inr state"
  shows "pendingMigrations state =
           filter (\<lambda>m. name m \<notin> set (executedMigrations state)) (migrations state) \<and>
         subseq (pendingMigrations state) (migrations state) \<and>
         set (map name (pendingMigrations state)) =
           set (map name (migrations state)) - set (executedMigrations state) \<and>
         sorted (map utf16_units (map name (migrations state))) \<and>
         distinct (map name (migrations state))"
proof -
  from getState_Inr [OF assms] obtain allMigrations where
    "provider props = Inr allMigrations"
    and names: "map name (migrations state) = js_sort (remdups (map fst allMigrations))"
    and pend: "pendingMigrations state =
        getPendingMigrations (migrations state) (executedMigrations state)"
    by blast
  have "sorted (map utf16_units (map name (migrations state)))"
    "distinct (map name (migrations state))"
    unfolding names by (simp_all add: sorted_js_sort del: map_map)
  moreover have "pendingMigrations state =
      filter (\<lambda>m. name m \<notin> set (executedMigrations state)) (migrations state)"
    using pend by (simp add: getPendingMigrations_def)
  ultimately show ?thesis by auto
qed

text \<open>
  With \<open>001_init\<close> in the log, the pending migrations of the three are \<open>002_users\<close> and
  \<open>003_index\<close>, in this order.
\<close>

theorem pending_is_migrations_minus_executed_witness:
  "getState three_props init_log_db = Inr state_init_executed \<and>
   pendingMigrations state_init_executed =
     filter (\<lambda>m. name m \<notin> set (executedMigrations state_init_executed))
       (migrations state_init_executed) \<and>
   map name (pendingMigrations state_init_executed) = [''002_users'', ''003_index'']"
proof -
  have "map name (pendingMigrations state_init_executed) = [''002_users'', ''003_index'']"
    by (simp add: state_init_executed_def named_users_def named_index_def)
  with getState_init pending_is_migrations_minus_executed [OF getState_init]
  show ?thesis by blast
qed

text \<open>
  C10. In a state that \<open>getState\<close> returns, \<open>find\<close> yields a migration of that name for
  every executed name, so no candidate of \<open>migrationsToRollback\<close> is \<open>undefined\<close>, whatever
  the step, and \<open>migrateDown\<close> never throws a plain error (in particular not the
  \<open>TypeError\<close> of reading \<open>name\<close> of \<open>undefined\<close>).
\<close>

theorem executed_names_resolve:
  assumes "getState props db = Inr state"
  shows "(\<forall>n\<in>set (executedMigrations state).
           \<exists>m. find (\<lambda>it. name it = n) (migrations state) = Some m \<and> name m = n) \<and>
         None \<notin> set (migrationsToRollback state step) \<and>
         (\<exists>cands. those (migrationsToRollback state step) = Some cands) \<and>
         (\<forall>db0 e. fst (migrateDown state step db0) \<noteq> Inl (Plain e))"
proof -
  from getState_Inr [OF assms]
  have sub: "set (executedMigrations state) \<subseteq> name ` set (migrations state)" by blast
  have a: "\<forall>n\<in>set (executedMigrations state).
           \<exists>m. find (\<lambda>it. name it = n) (migrations state) = Some m \<and> name m = n"
    using sub find_name by blast
  have b: "None \<notin> set (migrationsToRollback state step)"
  proof
    assume "None \<in> set (migrationsToRollback state step)"
    then obtain n where n: "n \<in> set (slice0 step (rev (executedMigrations state)))"
      and "find (\<lambda>it. name it = n) (migrations state) = None"
      by (auto simp: migrationsToRollback_def)
    moreover from n set_slice0 [of step "rev (executedMigrations state)"]
    have "n \<in> set (executedMigrations state)" by auto
    ultimately show False using a by auto
  qed
  then have c: "those (migrationsToRollback state step) =
      Some (map the (migrationsToRollback state step))"
    by (rule those_map_the)
  have d: "fst (migrateDown state step db0) \<noteq> Inl (Plain e)" for db0 e
  proof -
    from migrateDown_eq [OF c, of db0] show ?thesis
      by (auto split: sum.splits prod.splits)
  qed
  from a b c d show ?thesis by blast
qed

text \<open>
  The two candidates of a Down batch of step 2 on a log executed in the order
  \<open>002_users\<close>, \<open>003_index\<close>, \<open>001_init\<close>.
\<close>

theorem executed_names_resolve_witness:
  "getState unordered_props shuffled_log_db = Inr state_shuffled \<and>
   None \<notin> set (migrationsToRollback state_shuffled (Finite 2)) \<and>
   those (migrationsToRollback state_shuffled (Finite 2)) = Some [named_init, named_index]"
proof -
  from executed_names_resolve [OF getState_shuffled, of "Finite 2"]
  have "None \<notin> set (migrationsToRollback state_shuffled (Finite 2))" by blast
  moreover have "those (migrationsToRollback state_shuffled (Finite 2)) =
      Some [named_init, named_index]"
    by (simp add: migrationsToRollback_def state_shuffled_def named_init_def named_users_def
        named_index_def)
  ultimately show ?thesis using getState_shuffled by blast
qed

text \<open>
  C6. For a Down batch with step \<open>n > 0\<close> on a state that \<open>getState\<close> returns, every
  candidate is found, the candidates' names are the last \<open>n\<close> entries of
  \<open>executedMigrations\<close> reversed, and each candidate is the record \<open>find\<close> yields for its
  name in \<open>migrations\<close>. \<open>executedMigrations\<close> are the names of the rows of the log table
  rearranged so that timestamps ascend and, among equal timestamps, names ascend.
\<close>

theorem down_candidates_are_last_executed_reversed:
  assumes "getState props db = Inr state" and "0 < n"
  shows "\<exists>cands rows sorted_rows.
      those (migrationsToRollback state (Finite n)) = Some cands \<and>
      map name cands =
        rev (drop (length (executedMigrations state) - nat n) (executedMigrations state)) \<and>
      (\<forall>i<length cands.
         find (\<lambda>it. name it = name (cands ! i)) (migrations state) = Some (cands ! i)) \<and>
      set cands \<subseteq> set (migrations state) \<and>
      log_table db = Some rows \<and> mset sorted_rows = mset rows \<and>
      sorted_wrt (\<lambda>r r'. snd r < snd r' \<or> (snd r = snd r' \<and> fst r \<le> fst r')) sorted_rows \<and>
      executedMigrations state = map fst sorted_rows"
proof -
  from rollback_candidates [OF assms(1), of "Finite n"] obtain cands where
    c: "those (migrationsToRollback state (Finite n)) = Some cands"
    "map name cands = slice0 (Finite n) (rev (executedMigrations state))"
    "\<forall>i<length cands.
       find (\<lambda>it. name it = name (cands ! i)) (migrations state) = Some (cands ! i)"
    "set cands \<subseteq> set (migrations state)"
    by blast
  from assms(2) have "slice0 (Finite n) (rev (executedMigrations state)) =
      rev (drop (length (executedMigrations state) - nat n) (executedMigrations state))"
    by (simp add: take_rev)
  with c(2) have names: "map name cands =
      rev (drop (length (executedMigrations state) - nat n) (executedMigrations state))"
    by simp
  from getState_Inr [OF assms(1)] obtain rows where
    rows: "log_table db = Some rows"
    and ex: "executedMigrations state = map fst (sort_key order_key rows)"
    by blast
  have "mset (sort_key order_key rows) = mset rows" by simp
  with c(1,3,4) names rows ex sorted_rows_lex [of rows] show ?thesis by blast
qed

text \<open>
  \<open>001_init\<close> has the latest timestamp and the other two share an earlier one: the
  executed names are \<open>002_users\<close>, \<open>003_index\<close>, \<open>001_init\<close> and a Down batch of step 2
  takes \<open>001_init\<close>, then \<open>003_index\<close>.
\<close>

theorem down_candidates_are_last_executed_reversed_witness:
  "getState unordered_props shuffled_log_db = Inr state_shuffled \<and> (0::int) < 2 \<and>
   executedMigrations state_shuffled = [''002_users'', ''003_index'', ''001_init''] \<and>
   (\<exists>cands. those (migrationsToRollback state_shuffled (Finite 2)) = Some cands \<and>
      map name cands = [''001_init'', ''003_index''])"
proof -
  have pos: "(0::int) < 2" by simp
  have ex: "executedMigrations state_shuffled = [''002_users'', ''003_index'', ''001_init'']"
    by (simp add: state_shuffled_def)
  from down_candidates_are_last_executed_reversed [OF getState_shuffled pos]
  obtain cands where "those (migrationsToRollback state_shuffled (Finite 2)) = Some cands"
    "map name cands =
       rev (drop (length (executedMigrations state_shuffled) - nat 2)
         (executedMigrations state_shuffled))"
    by blast
  then have "\<exists>cands. those (migrationsToRollback state_shuffled (Finite 2)) = Some cands \<and>
      map name cands = [''001_init'', ''003_index'']"
    by (simp add: ex)
  with getState_shuffled pos ex show ?thesis by blast
qed

text \<open>
  C2. The names of the log table are unique (\<open>name\<close> is its primary key), and the driver
  executes the statements of the call (it refuses none of them). When a name of the log
  is not a name of the provider's migrations, or unordered migrations are not allowed and
  the first \<open>length executed\<close> names of the sorted migrations are not the executed names
  in order, \<open>migrate\<close> (with any direction and step, hence also \<open>migrateToLatest\<close>) returns
  a result set whose error is one of the two \<open>corrupted migrations\<close> errors and that has
  no results list. Inside the transaction \<open>run\<close> throws with the database exactly as it
  received it: no operation was applied and no row inserted or deleted; the rows and the
  other contents are those before the call.
\<close>

theorem corrupted_history_aborts:
  assumes "provider props = Inr allMigrations"
    and "distinct (map fst (log_rows db))"
    and "executed = map fst (sort_key order_key (log_rows db))"
    and "names = js_sort (remdups (map fst allMigrations))"
    and "(\<exists>n\<in>set executed. n \<notin> set names) \<or>
         (\<not> allowUnordered props \<and> take (length executed) names \<noteq> executed)"
    and "refuses db \<inter>
           {CreateTable, SelectNames, Begin, Savepoint, Rollback, RollbackTo, Release} = {}"
  shows "\<exists>e. is_corrupted e \<and>
           migrate props clock getDS db =
             (Inr \<lparr>error = Some e, results = None\<rparr>, snd (ensureMigrationTablesExists db)) \<and>
           run props clock getDS (snd (ensureMigrationTablesExists db)) =
             (Inl (Plain (Some e)), snd (ensureMigrationTablesExists db)) \<and>
           run props clock getDS
               (snd (before (inTransaction (snd (ensureMigrationTablesExists db)))
                       (snd (ensureMigrationTablesExists db)))) =
             (Inl (Plain (Some e)),
              snd (before (inTransaction (snd (ensureMigrationTablesExists db)))
                     (snd (ensureMigrationTablesExists db)))) \<and>
           log_rows (snd (ensureMigrationTablesExists db)) = log_rows db \<and>
           user_data (snd (ensureMigrationTablesExists db)) = user_data db"
proof -
  let ?db1 = "db\<lparr>log_table := Some (log_rows db)\<rparr>"
  let ?migs = "map (\<lambda>n. with_name (the (map_of allMigrations n)) n) names"
  from assms(6) have acc: "CreateTable \<notin> refuses db" "SelectNames \<notin> refuses db"
    "refuses db \<inter> {Begin, Savepoint} = {}" "refuses db \<inter> {Rollback, RollbackTo, Release} = {}"
    by auto
  have boot: "ensureMigrationTablesExists db = (Inr (), ?db1)"
    by (rule ensureMigrationTablesExists_accepted [OF acc(1)])
  then have db1: "snd (ensureMigrationTablesExists db) = ?db1" by simp
  have rm: "resolveMigrations props = Inr ?migs"
    using assms(1,4) by (simp add: resolveMigrations_def)
  have mn: "map name ?migs = names" by (simp add: comp_def)
  have ge: "getExecutedMigrations ?db1 = Inr executed"
    using assms(3) acc(2) by (simp add: getExecutedMigrations_def query_names_def)
  have "\<exists>e. is_corrupted e \<and> getState props ?db1 = Inl (Some e)"
  proof (cases "\<exists>n\<in>set executed. n \<notin> set names")
    case True
    then have "\<not> set executed \<subseteq> name ` set ?migs" using mn by (metis set_map subsetD)
    then have "\<forall>u. ensureNoMissingMigrations ?migs executed \<noteq> Inr u"
      by (simp add: ensureNoMissingMigrations_Inr_iff)
    then obtain e where e: "ensureNoMissingMigrations ?migs executed = Inl e"
      by (cases "ensureNoMissingMigrations ?migs executed") auto
    from ensureNoMissingMigrations_Inl [OF e] obtain c where "e = Some c" "is_corrupted c"
      by auto
    moreover have "getState props ?db1 = Inl e"
      using rm ge e by (simp add: getState_def)
    ultimately show ?thesis by blast
  next
    case False
    with assms(5) have unord: "\<not> allowUnordered props"
      and ne: "take (length executed) names \<noteq> executed" by auto
    from False have sub: "set executed \<subseteq> set names" by auto
    then have "set executed \<subseteq> name ` set ?migs" using mn by (metis set_map)
    then obtain u where nm: "ensureNoMissingMigrations ?migs executed = Inr u"
      by (simp add: ensureNoMissingMigrations_Inr_iff)
    have "distinct executed" using assms(2,3) by (simp add: distinct_executed)
    then have "length executed = card (set executed)" by (simp add: distinct_card)
    also have "\<dots> \<le> card (set names)" using sub by (simp add: card_mono)
    also have "\<dots> \<le> length names" by (rule card_length)
    finally have len: "length executed \<le> length ?migs" by simp
    from ne mn have "\<forall>u. ensureMigrationsInOrder ?migs executed \<noteq> Inr u"
      by (simp add: ensureMigrationsInOrder_Inr_iff)
    then obtain e where e: "ensureMigrationsInOrder ?migs executed = Inl e"
      by (cases "ensureMigrationsInOrder ?migs executed") auto
    from ensureMigrationsInOrder_Inl [OF e len] obtain c where "e = Some c" "is_corrupted c"
      by blast
    moreover have "getState props ?db1 = Inl e"
      using rm ge nm e unord by (simp add: getState_def)
    ultimately show ?thesis by blast
  qed
  then obtain e where e: "is_corrupted e" and gs: "getState props ?db1 = Inl (Some e)"
    by blast
  from gs have run1: "run props clock getDS ?db1 = (Inl (Plain (Some e)), ?db1)"
    by (simp add: run_def)
  have "refuses ?db1 \<inter> {Begin, Savepoint} = {}" using acc(3) by simp
  from before_accepted [OF this] obtain d0 where
    bef: "before (inTransaction ?db1) ?db1 = (Inr (), d0)" by blast
  note d0 = before_Inr [OF bef]
  have "getState props d0 = getState props ?db1"
    by (rule getState_cong; subst d0; simp)
  with gs have run0: "run props clock getDS d0 = (Inl (Plain (Some e)), d0)"
    by (simp add: run_def)
  have r: "refuses d0 \<inter> {Rollback, RollbackTo, Release} = {}"
    using acc(4) by (subst d0) simp
  have restored: "(restore (contents ?db1) d0)\<lparr>open_transaction := open_transaction ?db1\<rparr> = ?db1"
    by (subst d0) (simp add: restore_def contents_def)
  from transaction_rolled_back [where f = "run props clock getDS", OF bef run0 refl r] restored
  have "runMigrations props clock getDS ?db1 = (Inl (Plain (Some e)), ?db1)"
    by (simp add: runMigrations_def)
  from migrate_batch_throws [OF boot this]
  have m: "migrate props clock getDS db = (Inr \<lparr>error = Some e, results = None\<rparr>, ?db1)"
    by simp
  have "log_rows ?db1 = log_rows db" by (simp add: log_rows_def)
  with e m run1 run0 bef db1 show ?thesis by auto
qed

text \<open>
  \<open>002_users\<close> was executed and \<open>001_init\<close>, which sorts before it, is new; and a log
  naming \<open>000_gone\<close>, which the provider does not return.
\<close>

theorem corrupted_history_aborts_witness:
  "provider three_props = Inr three_migrations \<and>
   distinct (map fst (log_rows users_log_db)) \<and>
   [''002_users''] = map fst (sort_key order_key (log_rows users_log_db)) \<and>
   [''001_init'', ''002_users'', ''003_index''] = js_sort (remdups (map fst three_migrations)) \<and>
   \<not> allowUnordered three_props \<and>
   take (length [''002_users'']) [''001_init'', ''002_users'', ''003_index''] \<noteq> [''002_users''] \<and>
   refuses users_log_db \<inter>
     {CreateTable, SelectNames, Begin, Savepoint, Rollback, RollbackTo, Release} = {} \<and>
   (\<exists>e. is_corrupted e \<and>
      migrate three_props noon (\<lambda>state. (Down, Finite 1)) users_log_db =
        (Inr \<lparr>error = Some e, results = None\<rparr>, snd (ensureMigrationTablesExists users_log_db))) \<and>
   migrate three_props noon (\<lambda>state. (Down, Finite 1)) users_log_db =
     (Inr \<lparr>error = Some (OutOfOrder ''002_users'' 0 ''001_init''), results = None\<rparr>, users_log_db) \<and>
   migrateToLatest three_props noon orphan_log_db =
     (Inr \<lparr>error = Some (MissingMigration ''000_gone''), results = None\<rparr>, orphan_log_db)"
proof -
  have h1: "provider three_props = Inr three_migrations"
    by (simp add: three_props_def)
  have h2: "distinct (map fst (log_rows users_log_db))"
    by (simp add: log_rows_def users_log_db_def database_def)
  have h3: "[''002_users''] = map fst (sort_key order_key (log_rows users_log_db))"
    by (simp add: log_rows_def users_log_db_def database_def)
  have h4: "[''001_init'', ''002_users'', ''003_index''] =
      js_sort (remdups (map fst three_migrations))"
    by (simp add: three_migrations_def js_sort_three)
  have h5a: "\<not> allowUnordered three_props"
    by (simp add: allowUnordered_def three_props_def DEFAULT_ALLOW_UNORDERED_MIGRATIONS_def)
  have h5b: "take (length [''002_users'']) [''001_init'', ''002_users'', ''003_index''] \<noteq> [''002_users'']"
    by simp
  from h5a h5b have h5: "(\<exists>n\<in>set [''002_users'']. n \<notin> set [''001_init'', ''002_users'', ''003_index'']) \<or>
     (\<not> allowUnordered three_props \<and>
      take (length [''002_users'']) [''001_init'', ''002_users'', ''003_index''] \<noteq> [''002_users''])"
    by blast
  have h6: "refuses users_log_db \<inter>
     {CreateTable, SelectNames, Begin, Savepoint, Rollback, RollbackTo, Release} = {}"
    by (simp add: users_log_db_def database_def)
  from corrupted_history_aborts [OF h1 h2 h3 h4 h5 h6, of noon "\<lambda>state. (Down, Finite 1)"]
  have c: "\<exists>e. is_corrupted e \<and>
      migrate three_props noon (\<lambda>state. (Down, Finite 1)) users_log_db =
        (Inr \<lparr>error = Some e, results = None\<rparr>, snd (ensureMigrationTablesExists users_log_db))"
    by blast
  have v1: "migrate three_props noon (\<lambda>state. (Down, Finite 1)) users_log_db =
     (Inr \<lparr>error = Some (OutOfOrder ''002_users'' 0 ''001_init''), results = None\<rparr>, users_log_db)"
    by code_simp
  have v2: "migrateToLatest three_props noon orphan_log_db =
     (Inr \<lparr>error = Some (MissingMigration ''000_gone''), results = None\<rparr>, orphan_log_db)"
    by code_simp
  from h1 h2 h3 h4 h5a h5b h6 c v1 v2 show ?thesis by blast
qed

text \<open>
  C7. In a Down batch, a candidate without a backward operation is skipped. The
  iteration for it changes neither the database nor the results and goes on with the
  next index. In whatever \<open>migrateDown\<close> returns or throws, the entry of every candidate
  without a backward operation is \<open>NotExecuted\<close> (so the \<open>Error\<close> entry, if any, is never
  such a candidate's). The orchestrator deletes only the rows of candidates that have a
  backward operation: when the backward operations of the batch leave the log table as
  it is, every row whose name is not that of such a candidate is still in the log at the
  end.
\<close>

theorem down_skips_migration_without_backward:
  "(i < length rs \<and> at cands i = Some m \<and> down m = None \<longrightarrow>
      migrateDown_loop cands i rs db = migrateDown_loop cands (i + 1) rs db) \<and>
   (migrateDown state step db = (out, db') \<and>
    those (migrationsToRollback state step) = Some cs \<longrightarrow>
      (\<exists>rl. (out = Inr \<lparr>error = None, results = Some rl\<rparr> \<or>
             (\<exists>e. out = Inl (MigrationResultSetError \<lparr>error = e, results = Some rl\<rparr>))) \<and>
            length rl = length cs \<and>
            (\<forall>j<length cs. down (cs ! j) = None \<longrightarrow>
               rl ! j = result (name (cs ! j)) Down NotExecuted)) \<and>
      ((\<forall>m\<in>set cs. \<forall>down_op d. down m = Some down_op \<longrightarrow>
           log_table (snd (down_op d)) = log_table d) \<longrightarrow>
       (\<forall>row\<in>set (log_rows db). fst row \<notin> name ` {m \<in> set cs. down m \<noteq> None} \<longrightarrow>
           row \<in> set (log_rows db'))))"
proof (intro conjI impI)
  assume "i < length rs \<and> at cands i = Some m \<and> down m = None"
  then have i: "i < length rs" and a: "at cands i = Some m" and d: "down m = None" by simp_all
  from a have "i < length cands" "cands ! i = m" by (auto simp: at_def split: if_splits)
  with i d show "migrateDown_loop cands i rs db = migrateDown_loop cands (i + 1) rs db"
    by (simp add: migrateDown_loop_skip)
next
  assume "migrateDown state step db = (out, db') \<and>
    those (migrationsToRollback state step) = Some cs"
  then have m: "migrateDown state step db = (out, db')"
    and th: "those (migrationsToRollback state step) = Some cs" by simp_all
  show "\<exists>rl. (out = Inr \<lparr>error = None, results = Some rl\<rparr> \<or>
             (\<exists>e. out = Inl (MigrationResultSetError \<lparr>error = e, results = Some rl\<rparr>))) \<and>
            length rl = length cs \<and>
            (\<forall>j<length cs. down (cs ! j) = None \<longrightarrow>
               rl ! j = result (name (cs ! j)) Down NotExecuted)"
  proof (cases "attempts_down cs 0 db")
    case (Inr d)
    with migrateDown_eq [OF th, of db] m
    have "out = Inr \<lparr>error = None, results = Some (finished_results Down cs)\<rparr>" by simp
    then show ?thesis
      by (intro exI [of _ "finished_results Down cs"])
         (simp add: finished_results_def down_status_def)
  next
    case (Inl t)
    obtain k e d where t: "t = (k, e, d)" by (cases t)
    from migrateDown_eq [OF th, of db] m Inl t
    have out: "out = Inl (MigrationResultSetError
        \<lparr>error = e, results = Some (stopped_results Down cs k)\<rparr>)" by simp
    from attempts_down_index [OF Inl [unfolded t]] have k: "k < length cs" by simp
    from attempts_down_throws_has_down [OF Inl [unfolded t]] have dk: "down (cs ! k) \<noteq> None"
      by simp
    have "stopped_results Down cs k ! j = result (name (cs ! j)) Down NotExecuted"
      if "j < length cs" "down (cs ! j) = None" for j
    proof -
      from that dk have "j \<noteq> k" by auto
      with that k show ?thesis by (simp add: nth_stopped_results down_status_def)
    qed
    with out k show ?thesis
      by (intro exI [of _ "stopped_results Down cs k"]) (auto simp: length_stopped_results)
  qed
  show "\<forall>row\<in>set (log_rows db). fst row \<notin> name ` {m \<in> set cs. down m \<noteq> None} \<longrightarrow>
           row \<in> set (log_rows db')"
    if "\<forall>m\<in>set cs. \<forall>down_op d. down m = Some down_op \<longrightarrow>
           log_table (snd (down_op d)) = log_table d"
    using migrateDown_keeps_rows [OF m th that] by blast
qed

text \<open>
  A Down batch of step 2 on the log \<open>001_init\<close>, \<open>002_users\<close>: \<open>002_users\<close> has no
  backward operation and stays \<open>NotExecuted\<close> and in the log; \<open>001_init\<close> is then rolled
  back.
\<close>

theorem down_skips_migration_without_backward_witness:
  "(0::nat) < length [result ''002_users'' Down NotExecuted] \<and>
   at [named_users] 0 = Some named_users \<and> down named_users = None \<and>
   migrateDown_loop [named_users] 0 [result ''002_users'' Down NotExecuted] two_log_db =
     migrateDown_loop [named_users] (0 + 1) [result ''002_users'' Down NotExecuted] two_log_db \<and>
   migrateDown state_two_executed (Finite 2) two_log_db =
     (Inr down_skipped,
      database (Some [(''002_users'', ''2024-05-02T08:30:00.000Z'')]) 3) \<and>
   those (migrationsToRollback state_two_executed (Finite 2)) = Some [named_users, named_init] \<and>
   (''002_users'', ''2024-05-02T08:30:00.000Z'') \<in> set (log_rows two_log_db) \<and>
   (''002_users'', ''2024-05-02T08:30:00.000Z'') \<in>
     set (log_rows (database (Some [(''002_users'', ''2024-05-02T08:30:00.000Z'')]) 3))"
proof -
  let ?db' = "database (Some [(''002_users'', ''2024-05-02T08:30:00.000Z'')]) 3"
  let ?row = "(''002_users'', ''2024-05-02T08:30:00.000Z'')"
  let ?cs = "[named_users, named_init]"
  have a1: "(0::nat) < length [result ''002_users'' Down NotExecuted]" by simp
  have a2: "at [named_users] 0 = Some named_users" by (simp add: at_def)
  have a3: "down named_users = None" by (simp add: named_users_def with_name_def)
  have b1: "migrateDown state_two_executed (Finite 2) two_log_db = (Inr down_skipped, ?db')"
    by code_simp
  have b2: "those (migrationsToRollback state_two_executed (Finite 2)) = Some ?cs"
    by (simp add: migrationsToRollback_def state_two_executed_def named_init_def
        named_users_def named_index_def)
  have b3: "\<forall>m\<in>set ?cs. \<forall>down_op d. down m = Some down_op \<longrightarrow>
      log_table (snd (down_op d)) = log_table d"
    by (simp add: named_init_def named_users_def with_name_def ok_op_def)
  have b4: "?row \<in> set (log_rows two_log_db)"
    by (simp add: log_rows_def two_log_db_def database_def)
  have b5: "fst ?row \<notin> name ` {m \<in> set ?cs. down m \<noteq> None}"
    by (auto simp: named_init_def named_users_def with_name_def)
  note T = down_skips_migration_without_backward
    [of 0 "[result ''002_users'' Down NotExecuted]" "[named_users]" named_users two_log_db
        state_two_executed "Finite 2" "Inr down_skipped" ?db' ?cs]
  from T a1 a2 a3
  have c1: "migrateDown_loop [named_users] 0 [result ''002_users'' Down NotExecuted] two_log_db =
     migrateDown_loop [named_users] (0 + 1) [result ''002_users'' Down NotExecuted] two_log_db"
    by blast
  from T b1 b2 b3 b4 b5 have c2: "?row \<in> set (log_rows ?db')"
    by blast
  from a1 a2 a3 c1 b1 b2 b4 c2 show ?thesis by blast
qed




end
